theory Spec2Isabelle
  imports
    Complex_Main
    "HOL-Library.Sublist"
    "HOL-Library.List_Lexorder"
    "HOL-Library.Char_ord"
    "HOL-Library.Multiset"
    "HOL-Library.Log_Nat"
begin

section \<open>JavaScript values used by the venue selection algorithm\<close>

subsection \<open>Numbers\<close>

text \<open>
  A JavaScript number is an IEEE 754 double. A finite double is modelled by the rational
  it denotes, and each arithmetic operation rounds its exact result to the nearest double,
  ties to the even significand, as the standard prescribes. \<open>fl64\<close> is that rounding to
  53 significant bits. The range of the exponent is not bounded here: no result overflows
  or underflows, which the values of this program, made of the whole numbers of the
  tables and the form, do not come near. There is no negative zero. A whole number below
  \<open>2^53\<close> in magnitude is a double, and the model computes with such numbers as \<open>int\<close>.
\<close>

text \<open>The exponent \<open>e\<close> with \<open>2^e \<le> x < 2^(e+1)\<close> of a positive number.\<close>

definition ilog2 :: "rat \<Rightarrow> int" where
  "ilog2 x =
     (let (a, b) = quotient_of x; e0 = bitlen a - bitlen b
      in if 2 powi e0 \<le> x then e0 else e0 - 1)"

definition roundHalfEven :: "rat \<Rightarrow> int" where
  "roundHalfEven q =
     (let f = \<lfloor>q\<rfloor>; r = q - of_int f
      in if r < 1 / 2 then f else if 1 / 2 < r then f + 1 else if even f then f else f + 1)"

definition fl64 :: "rat \<Rightarrow> rat" where
  "fl64 x =
     (if x = 0 then 0
      else (let a = \<bar>x\<bar>; u = 2 powi (ilog2 a - 52)
            in sgn x * (of_int (roundHalfEven (a / u)) * u)))"

text \<open>
  The three non-finite values follow IEEE 754 as well, also where a division is by zero.
\<close>

datatype number = Num rat | PosInf | NegInf | NaN

fun num_neg :: "number \<Rightarrow> number" where
  "num_neg (Num a) = Num (- a)"
| "num_neg PosInf = NegInf"
| "num_neg NegInf = PosInf"
| "num_neg NaN = NaN"

fun num_add :: "number \<Rightarrow> number \<Rightarrow> number" where
  "num_add (Num a) (Num b) = Num (fl64 (a + b))"
| "num_add NaN y = NaN"
| "num_add x NaN = NaN"
| "num_add PosInf NegInf = NaN"
| "num_add NegInf PosInf = NaN"
| "num_add PosInf y = PosInf"
| "num_add x PosInf = PosInf"
| "num_add NegInf y = NegInf"
| "num_add x NegInf = NegInf"

definition num_sub :: "number \<Rightarrow> number \<Rightarrow> number" where
  "num_sub x y = num_add x (num_neg y)"

fun num_sgn :: "number \<Rightarrow> int" where
  "num_sgn (Num a) = (if a < 0 then - 1 else if a = 0 then 0 else 1)"
| "num_sgn PosInf = 1"
| "num_sgn NegInf = - 1"
| "num_sgn NaN = 0"

definition num_mul :: "number \<Rightarrow> number \<Rightarrow> number" where
  "num_mul x y =
     (case (x, y) of
        (Num a, Num b) \<Rightarrow> Num (fl64 (a * b))
      | _ \<Rightarrow>
          if x = NaN \<or> y = NaN then NaN
          else (let s = num_sgn x * num_sgn y
                in if s = 0 then NaN else if 0 < s then PosInf else NegInf))"

text \<open>The quotient \<open>a / b\<close> of two integer-valued numbers.\<close>

definition num_div_int :: "int \<Rightarrow> int \<Rightarrow> number" where
  "num_div_int a b =
     (if b \<noteq> 0 then Num (fl64 (rat_of_int a / rat_of_int b))
      else if 0 < a then PosInf
      else if a < 0 then NegInf
      else NaN)"

text \<open>\<open>x < y\<close>; every comparison with \<open>NaN\<close> is false.\<close>

fun num_less :: "number \<Rightarrow> number \<Rightarrow> bool" where
  "num_less (Num a) (Num b) = (a < b)"
| "num_less NaN y = False"
| "num_less x NaN = False"
| "num_less x NegInf = False"
| "num_less PosInf y = False"
| "num_less NegInf y = True"
| "num_less x PosInf = True"

text \<open>\<open>x <= y\<close> and \<open>x >= y\<close>.\<close>

definition num_le :: "number \<Rightarrow> number \<Rightarrow> bool" where
  "num_le x y = (x \<noteq> NaN \<and> y \<noteq> NaN \<and> \<not> num_less y x)"

text \<open>\<open>Math.max(x, y)\<close> and \<open>Math.abs(x)\<close>.\<close>

definition num_max :: "number \<Rightarrow> number \<Rightarrow> number" where
  "num_max x y = (if x = NaN \<or> y = NaN then NaN else if num_less x y then y else x)"

fun num_abs :: "number \<Rightarrow> number" where
  "num_abs (Num a) = Num \<bar>a\<bar>"
| "num_abs PosInf = PosInf"
| "num_abs NegInf = PosInf"
| "num_abs NaN = NaN"

subsection \<open>Strings\<close>

text \<open>
  Strings are lists of 8-bit characters: the model covers ASCII text, which is what the
  venue table and the form hold. \<open>str_includes s sub\<close> is \<open>s.includes(sub)\<close>.
\<close>

fun startsWith :: "string \<Rightarrow> string \<Rightarrow> bool" where
  "startsWith s [] = True"
| "startsWith [] (c # cs) = False"
| "startsWith (x # xs) (c # cs) = (x = c \<and> startsWith xs cs)"

fun str_includes :: "string \<Rightarrow> string \<Rightarrow> bool" where
  "str_includes [] sub = (sub = [])"
| "str_includes (x # xs) sub = (startsWith (x # xs) sub \<or> str_includes xs sub)"

text \<open>\<open>s.split(c)\<close> for a separator of one character; the result is never empty.\<close>

fun str_split :: "char \<Rightarrow> string \<Rightarrow> string list" where
  "str_split c [] = [[]]"
| "str_split c (x # xs) =
     (if x = c then [] # str_split c xs
      else (case str_split c xs of
              [] \<Rightarrow> [[x]]
            | w # ws \<Rightarrow> (x # w) # ws))"

text \<open>Indexing an array: \<open>xs[i]\<close> is \<open>undefined\<close> (here \<open>None\<close>) out of range.\<close>

fun nth_opt :: "'a list \<Rightarrow> nat \<Rightarrow> 'a option" where
  "nth_opt [] i = None"
| "nth_opt (x # xs) 0 = Some x"
| "nth_opt (x # xs) (Suc i) = nth_opt xs i"

text \<open>\<open>s.toLowerCase()\<close> on ASCII text.\<close>

definition lowerChar :: "char \<Rightarrow> char" where
  "lowerChar c =
     (case map_of (zip ''ABCDEFGHIJKLMNOPQRSTUVWXYZ'' ''abcdefghijklmnopqrstuvwxyz'') c of
        None \<Rightarrow> c
      | Some l \<Rightarrow> l)"

definition toLowerCase :: "string \<Rightarrow> string" where
  "toLowerCase s = map lowerChar s"

text \<open>\<open>xs.join(sep)\<close>.\<close>

fun join :: "string \<Rightarrow> string list \<Rightarrow> string" where
  "join sep [] = []"
| "join sep [x] = x"
| "join sep (x # y # ys) = x @ sep @ join sep (y # ys)"

text \<open>\<open>a <= b\<close> on strings: the order of the first differing code unit, a proper prefix first.\<close>

fun str_le :: "string \<Rightarrow> string \<Rightarrow> bool" where
  "str_le [] b = True"
| "str_le (x # xs) [] = False"
| "str_le (x # xs) (y # ys) =
     (if x = y then str_le xs ys else (of_char x :: nat) < of_char y)"

text \<open>The decimal text of an integer, as a template literal prints it (below \<open>10^21\<close>).\<close>

definition digitChar :: "nat \<Rightarrow> char" where
  "digitChar d = ''0123456789'' ! d"

fun digits :: "nat \<Rightarrow> string" where
  "digits n = (if n < 10 then [digitChar n] else digits (n div 10) @ [digitChar (n mod 10)])"

definition showInt :: "int \<Rightarrow> string" where
  "showInt i = (if i < 0 then CHR ''-'' # digits (nat (- i)) else digits (nat i))"

subsection \<open>Array.prototype.sort\<close>

text \<open>
  \<open>xs.sort(cmp)\<close> is stable, and a comparator result that is \<open>NaN\<close> counts as \<open>0\<close>. For a
  consistent comparator the result is the stable sorted order, which the insertion sort
  below computes: an element moves behind exactly those elements that \<open>cmp\<close> puts strictly
  before it. For an inconsistent comparator ECMAScript leaves the order to the engine; the
  model is then one admissible behaviour.
\<close>

fun insertSorted :: "('a \<Rightarrow> 'a \<Rightarrow> number) \<Rightarrow> 'a \<Rightarrow> 'a list \<Rightarrow> 'a list" where
  "insertSorted cmp x [] = [x]"
| "insertSorted cmp x (y # ys) =
     (if num_less (Num 0) (cmp x y) then y # insertSorted cmp x ys else x # y # ys)"

definition array_sort :: "('a \<Rightarrow> 'a \<Rightarrow> number) \<Rightarrow> 'a list \<Rightarrow> 'a list" where
  "array_sort cmp xs = foldr (insertSorted cmp) xs []"

section \<open>Data model\<close>

text \<open>
  A row of the \<open>venues\<close> table: \<open>capacity\<close> and \<open>area_sqft\<close> are \<open>INTEGER NOT NULL\<close>,
  \<open>facilities\<close> and \<open>booked_slots\<close> are nullable \<open>TEXT[]\<close>.
\<close>

record Venue =
  id' :: string
  name :: string
  capacity :: int
  type' :: string
  created_at :: string
  area_sqft :: int
  facilities :: "string list option"
  booked_slots :: "string list option"

datatype Priority = High | Medium | Low

datatype EventType = Technical | NonTechnical

text \<open>
  The requirements of one request. \<open>participants\<close> is a positive whole number: the form
  reads it with \<open>parseInt\<close> and runs the algorithm only after it has checked that the
  count is at least 1. The model keeps the field an \<open>int\<close>, and the theorems that need
  the positive count say so.
\<close>

record EventRequirements =
  participants :: int
  facilitiesRequired :: "string list"
  preferredDateTime :: string
  priority :: Priority
  eventType :: EventType
  spaceType :: "string option"

record VenueMatch =
  venue :: Venue
  score :: number
  reason :: string
  alternative :: bool

record MatchResult =
  exactMatches :: "VenueMatch list"
  alternatives :: "VenueMatch list"
  noMatch :: bool

text \<open>
  The \<open>Date\<close> object belongs to the host: how a date-time text is parsed, the time zone and
  the locale are not fixed by the program. The three expressions the program evaluates on
  a \<open>Date\<close> are therefore parameters:
  \<^item> \<open>isoDate s\<close> is \<open>new Date(s).toISOString().split('T')[0]\<close>, where \<open>toISOString\<close> throws
    a \<open>RangeError\<close> on an invalid date (\<open>None\<close>);
  \<^item> \<open>localeTime s\<close> is \<open>new Date(s).toLocaleTimeString('en-US', {hour12: false, hour:
    '2-digit', minute: '2-digit'})\<close>;
  \<^item> \<open>getTime s\<close> is \<open>new Date(s).getTime()\<close>, milliseconds, with \<open>None\<close> for \<open>NaN\<close>.
\<close>

record Host =
  isoDate :: "string \<Rightarrow> string option"
  localeTime :: "string \<Rightarrow> string"
  getTime :: "string \<Rightarrow> int option"

datatype error = RangeError

section \<open>The class VenueSelectionAlgorithm\<close>

definition calculateRequiredArea :: "int \<Rightarrow> int" where
  "calculateRequiredArea p = p * 6"

text \<open>The callback of \<open>booked_slots.some\<close> in \<open>isVenueAvailable\<close>.\<close>

definition slotCovers :: "string \<Rightarrow> string \<Rightarrow> string \<Rightarrow> bool" where
  "slotCovers requestedDate requestedTime slot =
     (if str_includes slot requestedDate then
        (case nth_opt (str_split CHR '' '' slot) 1 of
           None \<Rightarrow> False
         | Some timeRange \<Rightarrow>
             if timeRange \<noteq> [] \<and> str_includes timeRange ''-'' then
               (case str_split CHR ''-'' timeRange of
                  startTime # endTime # rest \<Rightarrow>
                    str_le startTime requestedTime \<and> str_le requestedTime endTime
                | _ \<Rightarrow> False)
             else False)
      else False)"

definition isVenueAvailable :: "Host \<Rightarrow> Venue \<Rightarrow> string \<Rightarrow> error + bool" where
  "isVenueAvailable host v requestedDateTime =
     (case booked_slots v of
        None \<Rightarrow> Inr True
      | Some slots \<Rightarrow>
          if slots = [] then Inr True
          else (case isoDate host requestedDateTime of
                  None \<Rightarrow> Inl RangeError
                | Some requestedDate \<Rightarrow>
                    Inr (\<not> list_ex
                          (slotCovers requestedDate (localeTime host requestedDateTime))
                          slots)))"

text \<open>The test that \<open>hasFacilities\<close> makes on a required and an available label.\<close>

definition facilityMatches :: "string \<Rightarrow> string \<Rightarrow> bool" where
  "facilityMatches required available =
     (str_includes (toLowerCase available) (toLowerCase required) \<or>
      str_includes (toLowerCase required) (toLowerCase available))"

definition hasFacilities :: "Venue \<Rightarrow> string list \<Rightarrow> bool" where
  "hasFacilities v requiredFacilities =
     (if requiredFacilities = [] then True
      else (case facilities v of
              None \<Rightarrow> False
            | Some fs \<Rightarrow>
                if fs = [] then False
                else list_all (\<lambda>required. list_ex (facilityMatches required) fs)
                       requiredFacilities))"

definition calculateScore ::
    "Venue \<Rightarrow> EventRequirements \<Rightarrow> bool \<Rightarrow> bool \<Rightarrow> bool \<Rightarrow> number" where
  "calculateScore v requirements isAvailable hasFac areaMatch =
     (let score0 = Num 0;
          score1 =
            (if areaMatch then
               (let efficiency =
                      num_div_int (area_sqft v)
                        (calculateRequiredArea (participants requirements))
                in num_add score0
                     (num_max (Num 0)
                        (num_sub (Num 100)
                           (num_mul (num_sub efficiency (Num 1)) (Num 20)))))
             else score0);
          score2 = (if isAvailable then num_add score1 (Num 50) else score1);
          score3 = (if hasFac then num_add score2 (Num 30) else score2);
          score4 =
            (if participants requirements \<le> capacity v then num_add score3 (Num 20)
             else score3);
          score5 =
            (if priority requirements = High then num_add score4 (Num 10) else score4)
      in score5)"

text \<open>The filter that builds the list of the \<open>Missing facilities\<close> reason.\<close>

definition missingFacilities :: "Venue \<Rightarrow> string list \<Rightarrow> string list" where
  "missingFacilities v requiredFacilities =
     filter
       (\<lambda>req. \<not> (case facilities v of
                    None \<Rightarrow> False
                  | Some fs \<Rightarrow>
                      list_ex (\<lambda>f. str_includes (toLowerCase f) (toLowerCase req)) fs))
       requiredFacilities"

text \<open>The body of the \<open>forEach\<close> callback of \<open>findBestVenues\<close>, up to the record it builds.\<close>

definition venueMatchOf :: "Host \<Rightarrow> EventRequirements \<Rightarrow> Venue \<Rightarrow> error + VenueMatch" where
  "venueMatchOf host requirements v =
     (let requiredArea = calculateRequiredArea (participants requirements);
          areaMatch = (requiredArea \<le> area_sqft v)
      in case isVenueAvailable host v (preferredDateTime requirements) of
           Inl e \<Rightarrow> Inl e
         | Inr isAvailable \<Rightarrow>
             (let hasFac = hasFacilities v (facilitiesRequired requirements);
                  sc = calculateScore v requirements isAvailable hasFac areaMatch;
                  rsn =
                    (if areaMatch \<and> isAvailable \<and> hasFac then
                       ''Perfect match: Adequate space, available, and has required facilities''
                     else if \<not> areaMatch then
                       ''Too small: Needs '' @ showInt requiredArea @ '' sq ft, has ''
                         @ showInt (area_sqft v) @ '' sq ft''
                     else if \<not> isAvailable then ''Venue is booked at requested time''
                     else if \<not> hasFac then
                       ''Missing facilities: ''
                         @ join '', '' (missingFacilities v (facilitiesRequired requirements))
                     else [])
              in Inr \<lparr>venue = v, score = sc, reason = rsn,
                      alternative = (\<not> areaMatch \<or> \<not> isAvailable \<or> \<not> hasFac)\<rparr>))"

text \<open>
  The \<open>forEach\<close> loop: the two arrays \<open>matches\<close> and \<open>alternatives\<close> are the state, each
  record is pushed at the end of one of them, and an exception ends the loop.
\<close>

fun forEachVenue ::
    "Host \<Rightarrow> EventRequirements \<Rightarrow> Venue list \<Rightarrow> VenueMatch list \<times> VenueMatch list
      \<Rightarrow> error + (VenueMatch list \<times> VenueMatch list)" where
  "forEachVenue host requirements [] acc = Inr acc"
| "forEachVenue host requirements (v # vs) (matches, alts) =
     (case venueMatchOf host requirements v of
        Inl e \<Rightarrow> Inl e
      | Inr venueMatch \<Rightarrow>
          if alternative venueMatch
          then forEachVenue host requirements vs (matches, alts @ [venueMatch])
          else forEachVenue host requirements vs (matches @ [venueMatch], alts))"

text \<open>The two comparators given to \<open>sort\<close>.\<close>

definition byScoreDesc :: "VenueMatch \<Rightarrow> VenueMatch \<Rightarrow> number" where
  "byScoreDesc a b = num_sub (score b) (score a)"

definition byTightFit :: "VenueMatch \<Rightarrow> VenueMatch \<Rightarrow> number" where
  "byTightFit a b =
     (if num_less (num_abs (num_sub (score a) (score b))) (Num 10)
      then Num (rat_of_int (area_sqft (venue a) - area_sqft (venue b)))
      else num_sub (score b) (score a))"

definition findBestVenues :: "Host \<Rightarrow> Venue list \<Rightarrow> EventRequirements \<Rightarrow> error + MatchResult" where
  "findBestVenues host venues requirements =
     (case forEachVenue host requirements venues ([], []) of
        Inl e \<Rightarrow> Inl e
      | Inr (matches0, alternatives0) \<Rightarrow>
          (let matches1 = array_sort byScoreDesc matches0;
               alternatives1 = array_sort byScoreDesc alternatives0;
               matches2 =
                 (if priority requirements = High \<and> matches1 \<noteq> []
                  then array_sort byTightFit matches1 else matches1)
           in Inr \<lparr>exactMatches = matches2,
                   alternatives = take 3 alternatives1,
                   noMatch = (matches2 = [] \<and> alternatives1 = [])\<rparr>))"

definition suggestions :: "string list" where
  "suggestions = [''09:00'', ''10:00'', ''11:00'', ''14:00'', ''15:00'', ''16:00'']"

text \<open>\<open>Math.abs(a - b) < 2 * 60 * 60 * 1000\<close> on two results of \<open>getTime\<close>.\<close>

definition withinBuffer :: "int option \<Rightarrow> int option \<Rightarrow> bool" where
  "withinBuffer a b =
     (case (a, b) of
        (Some x, Some y) \<Rightarrow> \<bar>x - y\<bar> < 2 * 60 * 60 * 1000
      | _ \<Rightarrow> False)"

text \<open>The start and end times of the booked slots that contain the requested date.\<close>

definition bookedTimesOf :: "string list \<Rightarrow> string \<Rightarrow> string list" where
  "bookedTimesOf slots requestedDate =
     concat
       (map (\<lambda>slot. case nth_opt (str_split CHR '' '' slot) 1 of
                      None \<Rightarrow> []
                    | Some timeRange \<Rightarrow>
                        if timeRange \<noteq> [] then str_split CHR ''-'' timeRange else [])
            (filter (\<lambda>slot. str_includes slot requestedDate) slots))"

definition getSuggestedTimeSlots :: "Host \<Rightarrow> Venue \<Rightarrow> string \<Rightarrow> string list" where
  "getSuggestedTimeSlots host v requestedDate =
     (case booked_slots v of
        None \<Rightarrow> suggestions
      | Some slots \<Rightarrow>
          if slots = [] then suggestions
          else
            (let bookedTimes = bookedTimesOf slots requestedDate
             in filter
                  (\<lambda>time. \<not> list_ex
                     (\<lambda>bookedTime.
                        withinBuffer (getTime host (''2000-01-01 '' @ time))
                          (getTime host (''2000-01-01 '' @ bookedTime)))
                     bookedTimes)
                  suggestions))"

section \<open>The words of the specification\<close>

subsection \<open>Availability\<close>

text \<open>
  The words of the specification for \<open>isVenueAvailable\<close>. The pieces of a text separated
  by a character are the separator-free texts that, joined by the separator, give the
  text back; containment is \<open>sublist\<close>, and times are compared in the lexicographic order
  of lists of characters.
\<close>

definition tokens :: "char \<Rightarrow> string \<Rightarrow> string list \<Rightarrow> bool" where
  "tokens c s toks \<longleftrightarrow> toks \<noteq> [] \<and> (\<forall>w\<in>set toks. c \<notin> set w) \<and> join [c] toks = s"

definition spec_slot_blocks :: "string \<Rightarrow> string \<Rightarrow> string \<Rightarrow> bool" where
  "spec_slot_blocks requestedDate requestedTime slot \<longleftrightarrow>
     sublist requestedDate slot
     \<and> (\<exists>toks tok start end rest.
           tokens CHR '' '' slot toks \<and> nth_opt toks 1 = Some tok
           \<and> tokens CHR ''-'' tok (start # end # rest)
           \<and> start \<le> requestedTime \<and> requestedTime \<le> end)"

text \<open>
  A booked slot that names the requested date and has no second token, or a second token
  without \<open>-\<close>.
\<close>

definition malformedSlot :: "string \<Rightarrow> string \<Rightarrow> bool" where
  "malformedSlot requestedDate slot \<longleftrightarrow>
     str_includes slot requestedDate
     \<and> (case nth_opt (str_split CHR '' '' slot) 1 of
          None \<Rightarrow> True
        | Some tok \<Rightarrow> CHR ''-'' \<notin> set tok)"

subsection \<open>The order of the exact matches of a high-priority request\<close>

text \<open>
  The order that the specification asks of two entries of the exact matches of a
  high-priority request, the first standing before the second: by area when the two
  scores differ by less than 10, by score when they differ by 10 or more. The difference
  is the one of the two scores as numbers, not rounded.
\<close>

definition spec_tight_fit_order :: "VenueMatch \<Rightarrow> VenueMatch \<Rightarrow> bool" where
  "spec_tight_fit_order a b =
     (case (score a, score b) of
        (Num sa, Num sb) \<Rightarrow>
          (\<bar>sa - sb\<bar> < 10 \<longrightarrow> area_sqft (venue a) \<le> area_sqft (venue b))
          \<and> (10 \<le> \<bar>sa - sb\<bar> \<longrightarrow> sb \<le> sa)
      | _ \<Rightarrow> False)"

section \<open>A host and a catalog to evaluate on\<close>

text \<open>
  \<open>utcHost\<close> is a host whose time zone is UTC, described on the texts the program gives a
  \<open>Date\<close>: \<open>YYYY-MM-DD HH:MM\<close> with a date of the calendar and a time of the day, read
  as local time. It is meant for these texts only: it answers every other text as an
  invalid date, and it gives \<open>getTime\<close> for the reference day \<open>2000-01-01\<close> only, the one
  day the program asks it for.
\<close>

definition isDigit :: "char \<Rightarrow> bool" where
  "isDigit c = (c \<in> set ''0123456789'')"

definition digitVal :: "char \<Rightarrow> int" where
  "digitVal c =
     (case map_of (zip ''0123456789'' [0, 1, 2, 3, 4, 5, 6, 7, 8, 9]) c of
        None \<Rightarrow> 0
      | Some d \<Rightarrow> d)"

definition dateTimeText :: "string \<Rightarrow> bool" where
  "dateTimeText s =
     (map (\<lambda>c. if isDigit c then CHR ''9'' else c) s = ''9999-99-99 99:99'')"

definition minuteOfDay :: "string \<Rightarrow> int" where
  "minuteOfDay s =
     (digitVal (s ! 11) * 10 + digitVal (s ! 12)) * 60
       + (digitVal (s ! 14) * 10 + digitVal (s ! 15))"

definition utcHost :: Host where
  "utcHost =
     \<lparr>isoDate = (\<lambda>s. if dateTimeText s then Some (take 10 s) else None),
      localeTime = (\<lambda>s. if dateTimeText s then drop 11 s else ''Invalid Date''),
      getTime =
        (\<lambda>s. if dateTimeText s \<and> take 10 s = ''2000-01-01''
             then Some (946684800000 + minuteOfDay s * 60000) else None)\<rparr>"

text \<open>
  \<open>brisbaneHost\<close> is a host ten hours east of UTC with no daylight saving time, described
  on the same texts: the date of \<open>toISOString\<close> is the UTC date, which is the day before
  the local date for a local time before \<open>10:00\<close>.
\<close>

definition fieldVal :: "string \<Rightarrow> nat \<Rightarrow> nat \<Rightarrow> int" where
  "fieldVal s i n = foldl (\<lambda>acc c. acc * 10 + digitVal c) 0 (take n (drop i s))"

definition pad2 :: "int \<Rightarrow> string" where
  "pad2 n = [digitChar (nat (n div 10 mod 10)), digitChar (nat (n mod 10))]"

definition pad4 :: "int \<Rightarrow> string" where
  "pad4 n = pad2 (n div 100) @ pad2 (n mod 100)"

definition daysInMonth :: "int \<Rightarrow> int \<Rightarrow> int" where
  "daysInMonth y m =
     (if m = 2 then (if y mod 4 = 0 \<and> (y mod 100 \<noteq> 0 \<or> y mod 400 = 0) then 29 else 28)
      else if m = 4 \<or> m = 6 \<or> m = 9 \<or> m = 11 then 30
      else 31)"

definition previousDay :: "string \<Rightarrow> string" where
  "previousDay s =
     (let y = fieldVal s 0 4; m = fieldVal s 5 2; d = fieldVal s 8 2
      in if 1 < d then pad4 y @ ''-'' @ pad2 m @ ''-'' @ pad2 (d - 1)
         else if 1 < m then pad4 y @ ''-'' @ pad2 (m - 1) @ ''-'' @ pad2 (daysInMonth y (m - 1))
         else pad4 (y - 1) @ ''-12-31'')"

definition brisbaneHost :: Host where
  "brisbaneHost =
     \<lparr>isoDate =
        (\<lambda>s. if dateTimeText s
             then Some (if fieldVal s 11 2 < 10 then previousDay s else take 10 s)
             else None),
      localeTime = (\<lambda>s. if dateTimeText s then drop 11 s else ''Invalid Date''),
      getTime =
        (\<lambda>s. if dateTimeText s \<and> take 10 s = ''2000-01-01''
             then Some (946648800000 + minuteOfDay s * 60000) else None)\<rparr>"

text \<open>Rows of the seeded \<open>venues\<close> table.\<close>

definition mkVenue ::
    "string \<Rightarrow> int \<Rightarrow> string \<Rightarrow> int \<Rightarrow> string list \<Rightarrow> string list \<Rightarrow> Venue" where
  "mkVenue n cap ty area fs slots =
     \<lparr>id' = n, name = n, capacity = cap, type' = ty, created_at = [], area_sqft = area,
      facilities = Some fs, booked_slots = Some slots\<rparr>"

definition mainAuditorium :: Venue where
  "mainAuditorium =
     mkVenue ''Main Auditorium'' 800 ''auditorium'' 5000
       [''Stage'', ''Projector'', ''Sound System'', ''AC'', ''Lighting'']
       [''2025-09-26 10:00-12:00'']"

definition seminarHallA :: Venue where
  "seminarHallA =
     mkVenue ''Seminar Hall A'' 200 ''seminar_hall'' 2000
       [''Projector'', ''AC'', ''Sound System'', ''WiFi''] []"

definition computerLab1 :: Venue where
  "computerLab1 =
     mkVenue ''Computer Lab 1'' 60 ''computer_lab'' 1200
       [''Computers'', ''High-Speed WiFi'', ''AC'', ''Projector''] []"

definition computerLab2 :: Venue where
  "computerLab2 =
     mkVenue ''Computer Lab 2'' 50 ''computer_lab'' 1000
       [''Computers'', ''High-Speed WiFi'', ''AC''] []"

definition basketballCourt :: Venue where
  "basketballCourt =
     mkVenue ''Basketball Court'' 400 ''sports_court'' 4500
       [''Open Space'', ''Seating'', ''Sound Setup Possible'']
       [''2025-09-26 09:00-11:00'']"

definition classroom101 :: Venue where
  "classroom101 =
     mkVenue ''Classroom Block 101'' 40 ''classroom'' 900
       [''Projector'', ''Whiteboard'', ''WiFi''] []"

definition mkRequirements :: "int \<Rightarrow> string list \<Rightarrow> string \<Rightarrow> Priority \<Rightarrow> EventRequirements" where
  "mkRequirements p fs dt pr =
     \<lparr>participants = p, facilitiesRequired = fs, preferredDateTime = dt, priority = pr,
      eventType = Technical, spaceType = None\<rparr>"

definition seededVenues :: "Venue list" where
  "seededVenues =
     [mainAuditorium, seminarHallA, computerLab1, computerLab2, basketballCourt, classroom101]"

definition storeRoom :: Venue where
  "storeRoom = mkVenue ''Store Room'' 20 ''classroom'' 400 [] []"

definition openLawn :: Venue where
  "openLawn = mkVenue ''Open Lawn'' 500 ''outdoor_ground'' 3000 [] []"

text \<open>
  Two rooms whose scores, for 100 participants and a high priority, are the doubles
  186.66666666666669 and 196.66666666666666: they differ by less than 10, while the
  fractions that they round differ by 10.
\<close>

definition smallHall :: Venue where
  "smallHall = mkVenue ''Small Hall'' 99 ''seminar_hall'' 700 [] []"

definition largeHall :: Venue where
  "largeHall = mkVenue ''Large Hall'' 100 ''seminar_hall'' 1000 [] []"

definition morningHall :: Venue where
  "morningHall =
     mkVenue ''Morning Hall'' 100 ''seminar_hall'' 1500 [''Projector'']
       [''2025-09-26 09:00-10:00'']"

definition noonHall :: Venue where
  "noonHall =
     mkVenue ''Noon Hall'' 100 ''seminar_hall'' 1500 [''Projector'']
       [''2025-09-26 12:00-13:00'']"

definition looseHall :: Venue where
  "looseHall =
     mkVenue ''Loose Hall'' 100 ''seminar_hall'' 1500 [''Projector'']
       [''2025-09-26 morning'', ''2025-09-26'']"

text \<open>
  The hour that each of these texts denotes. A host reads them as times of the reference
  day when \<open>getTime\<close> of \<open>2000-01-01\<close> followed by the text is that many hours after one
  instant.
\<close>

definition referenceHours :: "(string \<times> int) list" where
  "referenceHours =
     [(''09:00'', 9), (''10:00'', 10), (''11:00'', 11), (''12:00'', 12), (''13:00'', 13),
      (''14:00'', 14), (''15:00'', 15), (''16:00'', 16)]"

section \<open>Rounding\<close>

text \<open>
  Facts about the rounding of a rational to the nearest double: the exponent that
  \<open>ilog2\<close> finds, that rounding is monotone and odd, that it leaves a whole number below
  \<open>2^53\<close>, every number \<open>m * 2^k\<close> with \<open>m\<close> below \<open>2^53\<close> in magnitude and every double
  as it is, and that its result is a nearest double.
\<close>

lemma two_powi_nat: "n \<ge> 0 \<Longrightarrow> (2::rat) powi n = of_int (2 ^ nat n)"
  by (simp add: power_int_nonneg_exp)

lemma two_powi_less: "(2::rat) powi m < 2 powi n \<longleftrightarrow> m < n"
proof
  assume "(2::rat) powi m < 2 powi n"
  show "m < n"
  proof (rule ccontr)
    assume "\<not> m < n"
    then have "n \<le> m" by simp
    then have "(2::rat) powi n \<le> 2 powi m" by (intro power_int_increasing) simp_all
    with \<open>(2::rat) powi m < 2 powi n\<close> show False by simp
  qed
next
  assume "m < n"
  then show "(2::rat) powi m < 2 powi n" by (intro power_int_strict_increasing) simp_all
qed

lemma two_powi_le: "(2::rat) powi m \<le> 2 powi n \<longleftrightarrow> m \<le> n"
  using two_powi_less [of n m] by (auto simp: not_less [symmetric])

lemma two_powi_Suc: "(2::rat) powi (n + 1) = 2 * 2 powi n"
  by (simp add: power_int_add)

lemma bitlen_bounds_rat:
  assumes "0 < a"
  shows "(2::rat) powi (bitlen a - 1) \<le> of_int a" and "rat_of_int a < 2 powi (bitlen a)"
proof -
  from assms have b1: "bitlen a \<ge> 1" by (auto simp: bitlen_alt_def)
  from bitlen_bounds [OF assms] have lo: "2 ^ nat (bitlen a - 1) \<le> a" and hi: "a < 2 ^ nat (bitlen a)"
    by simp_all
  have "(2::rat) powi (bitlen a - 1) = of_int (2 ^ nat (bitlen a - 1))"
    using b1 by (intro two_powi_nat) simp
  also have "\<dots> \<le> of_int a" using lo by (simp only: of_int_le_iff)
  finally show "(2::rat) powi (bitlen a - 1) \<le> of_int a" .
  have "rat_of_int a < of_int (2 ^ nat (bitlen a))" using hi by (simp only: of_int_less_iff)
  also have "\<dots> = 2 powi (bitlen a)"
    using b1 by (intro two_powi_nat [symmetric]) simp
  finally show "rat_of_int a < 2 powi (bitlen a)" .
qed

lemma ilog2_bounds:
  assumes "0 < x"
  shows "2 powi (ilog2 x) \<le> x" and "x < 2 powi (ilog2 x + 1)"
proof -
  obtain a b where q: "quotient_of x = (a, b)" by (cases "quotient_of x")
  then have b: "0 < b" by (rule quotient_of_denom_pos)
  from q have x: "x = of_int a / of_int b" by (rule quotient_of_div)
  with assms b have a: "0 < a" by (simp add: zero_less_divide_iff)
  let ?e = "bitlen a - bitlen b"
  note A = bitlen_bounds_rat [OF a] and B = bitlen_bounds_rat [OF b]
  have bpos: "0 < rat_of_int b" using b by simp
  have "x < 2 powi (bitlen a) / of_int b"
    unfolding x using A(2) bpos by (simp add: divide_strict_right_mono)
  also have "\<dots> \<le> 2 powi (bitlen a) / 2 powi (bitlen b - 1)"
    using B(1) b by (intro divide_left_mono) (simp_all add: zero_less_mult_iff)
  also have "\<dots> = 2 powi (?e + 1)"
    by (simp add: power_int_diff [symmetric] algebra_simps)
  finally have up: "x < 2 powi (?e + 1)" .
  have "2 powi (?e - 1) = (2::rat) powi (bitlen a - 1) / 2 powi (bitlen b)"
    by (simp add: power_int_diff [symmetric] algebra_simps)
  also have "\<dots> \<le> of_int a / 2 powi (bitlen b)"
    using A(1) by (intro divide_right_mono) simp_all
  also have "\<dots> < of_int a / of_int b"
    using B(2) a bpos by (intro divide_strict_left_mono) simp_all
  finally have lo: "2 powi (?e - 1) < x" by (simp only: x)
  have il: "ilog2 x = (if 2 powi ?e \<le> x then ?e else ?e - 1)"
    by (simp add: ilog2_def q)
  show "2 powi (ilog2 x) \<le> x"
    using lo by (simp add: il)
  show "x < 2 powi (ilog2 x + 1)"
    using up by (simp add: il not_le)
qed

lemma ilog2_unique:
  assumes "0 < x" and "2 powi e \<le> x" and "x < 2 powi (e + 1)"
  shows "ilog2 x = e"
proof -
  from ilog2_bounds [OF assms(1)] assms(2,3)
  have "(2::rat) powi e < 2 powi (ilog2 x + 1)" and "(2::rat) powi (ilog2 x) < 2 powi (e + 1)"
    by simp_all
  then have "e < ilog2 x + 1" and "ilog2 x < e + 1"
    by (simp_all only: two_powi_less)
  then show ?thesis by simp
qed

lemma roundHalfEven_of_int: "roundHalfEven (of_int n) = n"
  by (simp add: roundHalfEven_def)

lemma roundHalfEven_range: "\<lfloor>q\<rfloor> \<le> roundHalfEven q" "roundHalfEven q \<le> \<lfloor>q\<rfloor> + 1"
  by (simp_all add: roundHalfEven_def Let_def)

lemma roundHalfEven_mono:
  assumes "q \<le> q'"
  shows "roundHalfEven q \<le> roundHalfEven q'"
proof (cases "\<lfloor>q\<rfloor> = \<lfloor>q'\<rfloor>")
  case True
  with assms have "q - of_int \<lfloor>q\<rfloor> \<le> q' - of_int \<lfloor>q\<rfloor>" by simp
  then show ?thesis
    by (simp add: roundHalfEven_def Let_def True [symmetric])
next
  case False
  with assms have "\<lfloor>q\<rfloor> < \<lfloor>q'\<rfloor>"
    using floor_mono [OF assms] by simp
  then have "\<lfloor>q\<rfloor> + 1 \<le> \<lfloor>q'\<rfloor>" by simp
  with roundHalfEven_range(2) [of q] roundHalfEven_range(1) [of q'] show ?thesis
    by linarith
qed

lemma roundHalfEven_ge: "of_int m \<le> q \<Longrightarrow> m \<le> roundHalfEven q"
  using roundHalfEven_mono [of "of_int m" q] by (simp add: roundHalfEven_of_int)

lemma roundHalfEven_le: "q \<le> of_int m \<Longrightarrow> roundHalfEven q \<le> m"
  using roundHalfEven_mono [of q "of_int m"] by (simp add: roundHalfEven_of_int)

lemma fl64_pos_eq:
  "0 < x \<Longrightarrow> fl64 x = of_int (roundHalfEven (x / 2 powi (ilog2 x - 52))) * 2 powi (ilog2 x - 52)"
  by (simp add: fl64_def Let_def)

lemma fl64_zero [simp]: "fl64 0 = 0"
  by (simp add: fl64_def)

lemma fl64_minus: "fl64 (- x) = - fl64 x"
  by (simp add: fl64_def Let_def)

lemma scaled_bounds:
  assumes "0 < x"
  shows "2 powi 52 \<le> x / 2 powi (ilog2 x - 52)" and "x / 2 powi (ilog2 x - 52) \<le> 2 powi 53"
proof -
  let ?e = "ilog2 x"
  have u: "0 < (2::rat) powi (?e - 52)" by simp
  have "(2::rat) powi 52 * 2 powi (?e - 52) = 2 powi ?e"
    by (simp add: power_int_add [symmetric] del: power_int_numeral)
  with ilog2_bounds(1) [OF assms] show "2 powi 52 \<le> x / 2 powi (?e - 52)"
    using u by (simp add: pos_le_divide_eq del: power_int_numeral)
  have "(2::rat) powi 53 * 2 powi (?e - 52) = 2 powi (?e + 1)"
    by (simp add: power_int_add [symmetric] add.commute del: power_int_numeral)
  with ilog2_bounds(2) [OF assms] show "x / 2 powi (?e - 52) \<le> 2 powi 53"
    using u by (simp add: pos_divide_le_eq del: power_int_numeral)
qed

lemma fl64_bounds:
  assumes "0 < x"
  shows "2 powi (ilog2 x) \<le> fl64 x" and "fl64 x \<le> 2 powi (ilog2 x + 1)"
proof -
  let ?e = "ilog2 x"
  let ?u = "(2::rat) powi (?e - 52)"
  let ?n = "roundHalfEven (x / ?u)"
  have u: "0 < ?u" by simp
  have p52: "(2::rat) powi 52 = of_int (2 ^ 52)" and p53: "(2::rat) powi 53 = of_int (2 ^ 53)"
    by simp_all
  from scaled_bounds [OF assms] have "of_int (2 ^ 52) \<le> x / ?u" "x / ?u \<le> of_int (2 ^ 53)"
    by (simp_all only: p52 p53)
  then have n: "2 ^ 52 \<le> ?n" "?n \<le> 2 ^ 53"
    by (simp_all only: roundHalfEven_ge roundHalfEven_le)
  have e52: "(2::rat) powi 52 * ?u = 2 powi ?e"
    by (simp add: power_int_add [symmetric] del: power_int_numeral)
  have e53: "(2::rat) powi 53 * ?u = 2 powi (?e + 1)"
    by (simp add: power_int_add [symmetric] add.commute del: power_int_numeral)
  have "(2::rat) powi ?e = of_int (2 ^ 52) * ?u"
    by (simp only: e52 [symmetric] p52)
  also have "\<dots> \<le> of_int ?n * ?u"
  proof (rule mult_right_mono)
    show "rat_of_int (2 ^ 52) \<le> of_int ?n" using n(1) by (simp only: of_int_le_iff)
    show "0 \<le> ?u" using u by (rule less_imp_le)
  qed
  finally show "2 powi ?e \<le> fl64 x" by (simp only: fl64_pos_eq [OF assms])
  have "of_int ?n * ?u \<le> of_int (2 ^ 53) * ?u"
  proof (rule mult_right_mono)
    show "rat_of_int ?n \<le> of_int (2 ^ 53)" using n(2) by (simp only: of_int_le_iff)
    show "0 \<le> ?u" using u by (rule less_imp_le)
  qed
  also have "\<dots> = 2 powi (?e + 1)"
    by (simp only: e53 [symmetric] p53)
  finally show "fl64 x \<le> 2 powi (?e + 1)" by (simp only: fl64_pos_eq [OF assms])
qed

lemma fl64_pos: "0 < x \<Longrightarrow> 0 < fl64 x"
  by (rule less_le_trans [OF _ fl64_bounds(1)]) simp_all

lemma fl64_mono_pos:
  assumes "0 < x" and "x \<le> y"
  shows "fl64 x \<le> fl64 y"
proof -
  from assms have y: "0 < y" by simp
  from ilog2_bounds(1) [OF assms(1)] assms(2) ilog2_bounds(2) [OF y]
  have "(2::rat) powi (ilog2 x) < 2 powi (ilog2 y + 1)" by simp
  then have le: "ilog2 x \<le> ilog2 y" by (simp add: two_powi_less)
  show ?thesis
  proof (cases "ilog2 x = ilog2 y")
    case True
    let ?u = "(2::rat) powi (ilog2 y - 52)"
    have "x / ?u \<le> y / ?u" using assms(2) by (intro divide_right_mono) simp_all
    then have "roundHalfEven (x / ?u) \<le> roundHalfEven (y / ?u)" by (rule roundHalfEven_mono)
    then have "rat_of_int (roundHalfEven (x / ?u)) * ?u \<le> of_int (roundHalfEven (y / ?u)) * ?u"
      by (intro mult_right_mono) simp_all
    then show ?thesis
      by (simp only: fl64_pos_eq [OF assms(1)] fl64_pos_eq [OF y] True)
  next
    case False
    with le have "ilog2 x + 1 \<le> ilog2 y" by simp
    then have "(2::rat) powi (ilog2 x + 1) \<le> 2 powi (ilog2 y)" by (simp only: two_powi_le)
    with fl64_bounds(2) [OF assms(1)] fl64_bounds(1) [OF y] show ?thesis by linarith
  qed
qed

lemma fl64_mono:
  assumes "x \<le> y"
  shows "fl64 x \<le> fl64 y"
proof -
  consider "0 < x" | "x = 0" | "x < 0" "y < 0" | "x < 0" "y = 0" | "x < 0" "0 < y" by linarith
  then show ?thesis
  proof cases
    case 1
    then show ?thesis using assms by (rule fl64_mono_pos)
  next
    case 2
    show ?thesis
    proof (cases "y = 0")
      case True
      with 2 show ?thesis by simp
    next
      case False
      with 2 assms have "0 < y" by simp
      from fl64_pos [OF this] 2 show ?thesis by simp
    qed
  next
    case 3
    then have "0 < - y" "- y \<le> - x" using assms by simp_all
    then have "fl64 (- y) \<le> fl64 (- x)" by (rule fl64_mono_pos)
    then show ?thesis by (simp add: fl64_minus)
  next
    case 4
    then have "0 < fl64 (- x)" by (intro fl64_pos) simp
    with 4 show ?thesis by (simp add: fl64_minus)
  next
    case 5
    then have "0 < fl64 (- x)" "0 < fl64 y" by (simp_all add: fl64_pos)
    then show ?thesis by (simp add: fl64_minus)
  qed
qed

lemma fl64_nonneg: "0 \<le> x \<Longrightarrow> 0 \<le> fl64 x"
  using fl64_mono [of 0 x] by simp

lemma fl64_exact:
  assumes "0 < m" and "m < 2 ^ 53"
  shows "fl64 (of_int m * 2 powi k) = of_int m * 2 powi k"
proof -
  define x where "x = rat_of_int m * 2 powi k"
  define e where "e = ilog2 x"
  define u where "u = (2::rat) powi (e - 52)"
  have x: "0 < x" using assms(1) by (simp add: x_def)
  have u: "0 < u" by (simp add: u_def)
  have p53: "(2::rat) powi 53 = of_int (2 ^ 53)" by simp
  have "rat_of_int m < of_int (2 ^ 53)" using assms(2) by (simp only: of_int_less_iff)
  then have "rat_of_int m * 2 powi k < 2 powi 53 * 2 powi k"
    by (intro mult_strict_right_mono) (simp_all only: p53 zero_less_power_int zero_less_numeral)
  also have "\<dots> = 2 powi (53 + k)"
    by (simp add: power_int_add [symmetric] del: power_int_numeral)
  finally have "x < 2 powi (53 + k)" by (simp only: x_def)
  with ilog2_bounds(1) [OF x] have "(2::rat) powi e < 2 powi (53 + k)"
    by (simp add: e_def)
  then have "e < 53 + k" by (simp only: two_powi_less)
  then have d: "0 \<le> k - (e - 52)" by simp
  define d where "d = nat (k - (e - 52))"
  have k: "k = int d + (e - 52)" using d by (simp add: d_def)
  have "(2::rat) powi (int d + (e - 52)) = 2 powi (int d) * 2 powi (e - 52)"
    by (rule power_int_add) simp
  then have "(2::rat) powi k = 2 powi (int d) * 2 powi (e - 52)"
    by (simp only: k [symmetric])
  then have pk: "(2::rat) powi k = 2 ^ d * u"
    by (simp only: u_def power_int_of_nat)
  have xeq: "x = of_int (m * 2 ^ d) * u"
    by (simp add: x_def pk)
  then have "x / u = of_int (m * 2 ^ d)"
    using u by simp
  then have "roundHalfEven (x / u) = m * 2 ^ d"
    by (simp only: roundHalfEven_of_int)
  then have "fl64 x = of_int (m * 2 ^ d) * u"
    unfolding fl64_pos_eq [OF x] e_def [symmetric] u_def [symmetric] by simp
  with xeq have "fl64 x = x" by simp
  then show ?thesis by (simp only: x_def)
qed

lemma fl64_of_int:
  assumes "\<bar>n\<bar> < 2 ^ 53"
  shows "fl64 (of_int n) = of_int n"
proof -
  consider "n = 0" | "0 < n" | "n < 0" by linarith
  then show ?thesis
  proof cases
    case 1
    then show ?thesis by simp
  next
    case 2
    with assms have "n < 2 ^ 53" by simp
    from fl64_exact [OF 2 this, of 0] show ?thesis by simp
  next
    case 3
    with assms have "0 < - n" "- n < 2 ^ 53" by simp_all
    from fl64_exact [OF this, of 0] have "fl64 (- of_int n) = - of_int n" by simp
    then show ?thesis by (simp add: fl64_minus)
  qed
qed

lemma fl64_idem_pos:
  assumes "0 < x"
  shows "fl64 (fl64 x) = fl64 x"
proof -
  let ?e = "ilog2 x"
  let ?u = "(2::rat) powi (?e - 52)"
  let ?n = "roundHalfEven (x / ?u)"
  have p52: "(2::rat) powi 52 = of_int (2 ^ 52)" and p53: "(2::rat) powi 53 = of_int (2 ^ 53)"
    by simp_all
  from scaled_bounds [OF assms] have "of_int (2 ^ 52) \<le> x / ?u" "x / ?u \<le> of_int (2 ^ 53)"
    by (simp_all only: p52 p53)
  then have n: "2 ^ 52 \<le> ?n" "?n \<le> 2 ^ 53"
    by (simp_all only: roundHalfEven_ge roundHalfEven_le)
  have eq: "fl64 x = of_int ?n * ?u" by (rule fl64_pos_eq [OF assms])
  show ?thesis
  proof (cases "?n = 2 ^ 53")
    case True
    have "rat_of_int (2 ^ 53) * ?u = of_int (2 ^ 52) * 2 powi (?e - 51)"
    proof -
      have "(2::rat) powi (?e - 51) = 2 * ?u"
        using two_powi_Suc [of "?e - 52"] by (simp add: algebra_simps)
      then show ?thesis by simp
    qed
    with eq True have eq': "fl64 x = of_int (2 ^ 52) * 2 powi (?e - 51)" by simp
    have "fl64 (rat_of_int (2 ^ 52) * 2 powi (?e - 51)) = of_int (2 ^ 52) * 2 powi (?e - 51)"
      by (rule fl64_exact) simp_all
    then show ?thesis by (simp only: eq')
  next
    case False
    with n have "0 < ?n" "?n < 2 ^ 53" by simp_all
    from fl64_exact [OF this, of "?e - 52"] show ?thesis by (simp only: eq)
  qed
qed

lemma fl64_idem [simp]: "fl64 (fl64 x) = fl64 x"
proof -
  consider "x = 0" | "0 < x" | "x < 0" by linarith
  then show ?thesis
  proof cases
    case 1
    then show ?thesis by simp
  next
    case 2
    then show ?thesis by (rule fl64_idem_pos)
  next
    case 3
    then have "fl64 (fl64 (- x)) = fl64 (- x)" by (intro fl64_idem_pos) simp
    then show ?thesis by (simp add: fl64_minus)
  qed
qed

lemma fl64_Ints:
  assumes "y \<in> \<int>" and "\<bar>y\<bar> < 2 ^ 53"
  shows "fl64 y = y"
proof -
  from assms(1) obtain n where y: "y = rat_of_int n"
    by (auto elim: Ints_cases)
  have "rat_of_int \<bar>n\<bar> < rat_of_int (2 ^ 53)"
    using assms(2) by (simp add: y)
  then have "\<bar>n\<bar> < 2 ^ 53"
    by (simp only: of_int_less_iff)
  then show ?thesis
    unfolding y by (rule fl64_of_int)
qed

lemma fl64_le_int: "x \<le> y \<Longrightarrow> y \<in> \<int> \<Longrightarrow> \<bar>y\<bar> < 2 ^ 53 \<Longrightarrow> fl64 x \<le> y"
  using fl64_mono [of x y] by (simp add: fl64_Ints)

lemma fl64_ge_int: "y \<le> x \<Longrightarrow> y \<in> \<int> \<Longrightarrow> \<bar>y\<bar> < 2 ^ 53 \<Longrightarrow> y \<le> fl64 x"
  using fl64_mono [of y x] by (simp add: fl64_Ints)

lemma fl64_pos_iff: "0 < fl64 x \<longleftrightarrow> 0 < x"
proof
  assume "0 < fl64 x"
  show "0 < x"
  proof (rule ccontr)
    assume "\<not> 0 < x"
    then have "x \<le> 0" by simp
    then have "fl64 x \<le> fl64 0" by (rule fl64_mono)
    with \<open>0 < fl64 x\<close> show False by simp
  qed
next
  assume "0 < x"
  then show "0 < fl64 x" by (rule fl64_pos)
qed

lemma fl64_exact_int:
  assumes "\<bar>m\<bar> < 2 ^ 53"
  shows "fl64 (of_int m * 2 powi k) = of_int m * 2 powi k"
proof -
  consider "m = 0" | "0 < m" | "m < 0" by linarith
  then show ?thesis
  proof cases
    case 1
    then show ?thesis by simp
  next
    case 2
    with assms have "m < 2 ^ 53" by simp
    from fl64_exact [OF 2 this] show ?thesis .
  next
    case 3
    with assms have "0 < - m" "- m < 2 ^ 53" by simp_all
    from fl64_exact [OF this, of k] have "fl64 (- (of_int m * 2 powi k)) = - (of_int m * 2 powi k)"
      by simp
    then show ?thesis by (simp add: fl64_minus)
  qed
qed

lemma fl64_grid:
  assumes "2 powi k \<le> x"
  shows "\<exists>m. fl64 x = of_int m * 2 powi (k - 52)"
proof -
  have "(0::rat) < 2 powi k" by simp
  then have x: "0 < x" using assms by (rule less_le_trans)
  define e where "e = ilog2 x"
  from ilog2_bounds(2) [OF x] assms have "(2::rat) powi k < 2 powi (e + 1)"
    unfolding e_def by (rule le_less_trans [rotated])
  then have "k < e + 1" by (simp only: two_powi_less)
  then have ke: "k \<le> e" by simp
  define d where "d = nat (e - k)"
  have "e - 52 = int d + (k - 52)" using ke by (simp add: d_def)
  then have "(2::rat) powi (e - 52) = 2 powi (int d + (k - 52))" by (simp only:)
  also have "\<dots> = 2 powi (int d) * 2 powi (k - 52)"
    by (rule power_int_add) simp
  also have "(2::rat) powi (int d) = rat_of_int (2 ^ d)" by simp
  finally have u: "(2::rat) powi (e - 52) = rat_of_int (2 ^ d) * 2 powi (k - 52)" .
  have "fl64 x = of_int (roundHalfEven (x / 2 powi (e - 52))) * 2 powi (e - 52)"
    unfolding e_def by (rule fl64_pos_eq [OF x])
  also have "\<dots> = of_int (roundHalfEven (x / 2 powi (e - 52)) * 2 ^ d) * 2 powi (k - 52)"
    by (simp only: u of_int_mult mult.assoc)
  finally show ?thesis by blast
qed

text \<open>
  The result is a double that is nearest to the argument: no number that rounding leaves
  as it is, is closer. It has a significand of 53 bits.
\<close>

lemma roundHalfEven_nearest: "\<bar>rat_of_int (roundHalfEven q) - q\<bar> \<le> \<bar>rat_of_int n - q\<bar>"
proof -
  define f where "f = \<lfloor>q\<rfloor>"
  define r where "r = q - of_int f"
  define R where "R = roundHalfEven q"
  have r: "0 \<le> r" "r < 1"
    unfolding r_def f_def by linarith+
  have q: "q = of_int f + r" by (simp add: r_def)
  have R: "R = (if r < 1 / 2 then f else if 1 / 2 < r then f + 1 else if even f then f else f + 1)"
    by (simp add: R_def roundHalfEven_def Let_def f_def r_def)
  have err: "\<bar>rat_of_int R - q\<bar> \<le> r" "\<bar>rat_of_int R - q\<bar> \<le> 1 - r"
    using r by (auto simp: R q abs_if)
  consider "n \<le> f" | "f + 1 \<le> n" by linarith
  then have "\<bar>rat_of_int R - q\<bar> \<le> \<bar>rat_of_int n - q\<bar>"
  proof cases
    case 1
    then have "rat_of_int n \<le> of_int f" by simp
    then have "r \<le> \<bar>rat_of_int n - q\<bar>" unfolding q using r by simp
    with err(1) show ?thesis by simp
  next
    case 2
    then have "rat_of_int (f + 1) \<le> of_int n" by (simp only: of_int_le_iff)
    then have "1 - r \<le> \<bar>rat_of_int n - q\<bar>" unfolding q using r by simp
    with err(2) show ?thesis by simp
  qed
  then show ?thesis by (simp only: R_def)
qed

lemma fl64_nearest_pos:
  assumes "0 < x" and "fl64 d = d"
  shows "\<bar>fl64 x - x\<bar> \<le> \<bar>d - x\<bar>"
proof -
  define e where "e = ilog2 x"
  define u where "u = (2::rat) powi (e - 52)"
  define q where "q = x / u"
  have u: "0 < u" by (simp add: u_def)
  have x: "q * u = x" using u by (simp add: q_def)
  have fx: "fl64 x = of_int (roundHalfEven q) * u"
    unfolding q_def u_def e_def by (rule fl64_pos_eq [OF assms(1)])
  have lo: "2 powi e \<le> x"
    unfolding e_def by (rule ilog2_bounds(1) [OF assms(1)])
  have "(2::rat) powi (52 + (e - 52)) = 2 powi 52 * 2 powi (e - 52)"
    by (rule power_int_add) simp
  moreover have "(2::rat) powi 52 = rat_of_int (2 ^ 52)"
    using two_powi_nat [of 52] by simp
  ultimately have e52: "(2::rat) powi e = rat_of_int (2 ^ 52) * u"
    by (simp add: u_def)
  have "\<exists>n. \<bar>rat_of_int n * u - x\<bar> \<le> \<bar>d - x\<bar>"
  proof (cases "2 powi e \<le> d")
    case True
    from fl64_grid [OF True] obtain m where "fl64 d = of_int m * u"
      unfolding u_def by blast
    with assms(2) have "d = of_int m * u" by simp
    then show ?thesis by auto
  next
    case False
    then have "d < 2 powi e" by simp
    with lo have "\<bar>2 powi e - x\<bar> \<le> \<bar>d - x\<bar>" by simp
    then show ?thesis unfolding e52 by blast
  qed
  then obtain n where n: "\<bar>rat_of_int n * u - x\<bar> \<le> \<bar>d - x\<bar>" by blast
  have sc: "\<bar>rat_of_int k * u - x\<bar> = \<bar>rat_of_int k - q\<bar> * u" for k
  proof -
    have "rat_of_int k * u - x = (rat_of_int k - q) * u"
      by (simp only: left_diff_distrib x)
    then show ?thesis using u by (simp add: abs_mult)
  qed
  have "\<bar>fl64 x - x\<bar> = \<bar>rat_of_int (roundHalfEven q) - q\<bar> * u"
    unfolding fx by (rule sc)
  also have "\<dots> \<le> \<bar>rat_of_int n - q\<bar> * u"
    using roundHalfEven_nearest [of q n] u by (simp add: mult_right_mono)
  also have "\<dots> = \<bar>rat_of_int n * u - x\<bar>"
    by (rule sc [symmetric])
  finally show ?thesis using n by simp
qed

lemma fl64_nearest:
  assumes "fl64 d = d"
  shows "\<bar>fl64 x - x\<bar> \<le> \<bar>d - x\<bar>"
proof -
  consider "x = 0" | "0 < x" | "x < 0" by linarith
  then show ?thesis
  proof cases
    case 1
    then show ?thesis by simp
  next
    case 2
    then show ?thesis using assms by (rule fl64_nearest_pos)
  next
    case 3
    then have "0 < - x" by simp
    moreover have "fl64 (- d) = - d" by (simp add: fl64_minus assms)
    ultimately have "\<bar>fl64 (- x) - (- x)\<bar> \<le> \<bar>(- d) - (- x)\<bar>" by (rule fl64_nearest_pos)
    then show ?thesis by (simp add: fl64_minus abs_minus_commute)
  qed
qed

lemma fl64_significand:
  assumes "0 < x"
  shows "\<exists>m. 2 ^ 52 \<le> m \<and> m \<le> 2 ^ 53 \<and> fl64 x = of_int m * 2 powi (ilog2 x - 52)"
proof -
  let ?u = "(2::rat) powi (ilog2 x - 52)"
  have p52: "(2::rat) powi 52 = of_int (2 ^ 52)" and p53: "(2::rat) powi 53 = of_int (2 ^ 53)"
    by simp_all
  from scaled_bounds [OF assms] have "of_int (2 ^ 52) \<le> x / ?u" "x / ?u \<le> of_int (2 ^ 53)"
    by (simp_all only: p52 p53)
  then have "2 ^ 52 \<le> roundHalfEven (x / ?u)" "roundHalfEven (x / ?u) \<le> 2 ^ 53"
    by (simp_all only: roundHalfEven_ge roundHalfEven_le)
  with fl64_pos_eq [OF assms] show ?thesis by blast
qed

text \<open>
  The difference of two doubles on the grid of \<open>2^-46\<close>, which holds the doubles from 64
  to 128 and every second double from 128 to 256, is rounded to a number on the same side
  of 10 and of -10: below 16 in magnitude the difference is itself a double.
\<close>

lemma fl64_diff_near:
  assumes "sa = of_int ma * 2 powi (- 46)" and "sb = of_int mb * 2 powi (- 46)"
  shows "\<bar>fl64 (sa - sb)\<bar> < 10 \<longleftrightarrow> \<bar>sa - sb\<bar> < 10"
proof -
  define d where "d = sa - sb"
  have d: "d = rat_of_int (ma - mb) * 2 powi (- 46)"
    by (simp add: d_def assms algebra_simps)
  define u where "u = (2::rat) powi (- 46)"
  have upos: "0 < u" by (simp add: u_def)
  have "(2::rat) powi (50 + (- 46)) = 2 powi 50 * 2 powi (- 46)"
    by (rule power_int_add) simp
  then have u16: "2 powi 50 * u = 16" by (simp add: u_def)
  have p50: "(2::rat) powi 50 = rat_of_int (2 ^ 50)"
    using two_powi_nat [of 50] by simp
  show ?thesis
  proof (cases "\<bar>d\<bar> < 16")
    case True
    then have "\<bar>rat_of_int (ma - mb)\<bar> * u < 2 powi 50 * u"
      unfolding d u_def [symmetric] u16 using upos by (simp add: abs_mult)
    then have "\<bar>rat_of_int (ma - mb)\<bar> < 2 powi 50"
      using upos by (simp only: mult_less_cancel_right_pos)
    then have "rat_of_int \<bar>ma - mb\<bar> < rat_of_int (2 ^ 50)"
      unfolding p50 by simp
    then have "\<bar>ma - mb\<bar> < 2 ^ 50" by (simp only: of_int_less_iff)
    then have "\<bar>ma - mb\<bar> < 2 ^ 53" by simp
    then have "fl64 d = d" unfolding d by (rule fl64_exact_int)
    then show ?thesis by (simp add: d_def)
  next
    case False
    then consider "16 \<le> d" | "d \<le> - 16" by linarith
    then show ?thesis
    proof cases
      case 1
      then have "16 \<le> fl64 d" by (rule fl64_ge_int) simp_all
      with 1 show ?thesis by (simp add: d_def)
    next
      case 2
      then have "fl64 d \<le> - 16" by (rule fl64_le_int) simp_all
      with 2 show ?thesis by (simp add: d_def)
    qed
  qed
qed

text \<open>
  For evaluation the result of a rounding is brought to a fraction of two numerals, so that
  the next operation starts from a numeral.
\<close>

lemma rat_norm: "(case quotient_of q of (a, b) \<Rightarrow> rat_of_int a / rat_of_int b) = q"
  by (cases "quotient_of q") (auto dest: quotient_of_div)

lemma fl64_code [code]:
  "fl64 x =
     (case quotient_of x of (n, d) \<Rightarrow>
        (let x' = rat_of_int n / rat_of_int d in
         case quotient_of
           (if x' = 0 then 0
            else (let a = \<bar>x'\<bar>; u = 2 powi (ilog2 a - 52)
                  in sgn x' * (of_int (roundHalfEven (a / u)) * u))) of
           (a, b) \<Rightarrow> rat_of_int a / rat_of_int b))"
proof (cases "quotient_of x")
  case (Pair n d)
  then have x: "rat_of_int n / rat_of_int d = x"
    by (auto dest: quotient_of_div)
  show ?thesis
    by (simp only: Pair prod.case x Let_def rat_norm) (simp only: fl64_def Let_def)
qed

text \<open>The doubles of one tenth and of ten thirds, and a tie that goes to the even side.\<close>

lemma fl64_examples:
  "fl64 (1 / 10) = 3602879701896397 / 36028797018963968"
  "fl64 (10 / 3) = 7505999378950827 / 2251799813685248"
  "fl64 9007199254740993 = 9007199254740992"
  "fl64 9007199254740995 = 9007199254740996"
  by code_simp+

section \<open>The score\<close>

text \<open>
  With a participant count other than zero no division by zero occurs, and the score is
  a finite number: the area term, to which the four bonuses are added one after the
  other, each sum rounded.
\<close>

lemma calculateScore_finite:
  assumes "participants r \<noteq> 0"
  shows "calculateScore v r ia hf am =
     Num (let s1 = (if am then
                      max 0 (fl64 (100 - fl64 (fl64 (fl64 (rat_of_int (area_sqft v)
                                 / rat_of_int (participants r * 6)) - 1) * 20)))
                    else 0);
              s2 = (if ia then fl64 (s1 + 50) else s1);
              s3 = (if hf then fl64 (s2 + 30) else s2);
              s4 = (if participants r \<le> capacity v then fl64 (s3 + 20) else s3)
          in if priority r = High then fl64 (s4 + 10) else s4)"
  using assms
  by (simp add: calculateScore_def calculateRequiredArea_def num_div_int_def num_sub_def
      num_mul_def num_max_def Let_def max_def)

lemma efficiency_ge_one:
  assumes "0 < p" and "p * 6 \<le> a"
  shows "1 \<le> rat_of_int a / rat_of_int (p * 6)"
proof -
  have "rat_of_int (p * 6) \<le> rat_of_int a"
    using assms(2) by (simp only: of_int_le_iff)
  moreover have "0 < rat_of_int (p * 6)"
    using assms(1) by simp
  ultimately show ?thesis
    by (simp add: le_divide_eq)
qed

lemma areaPoints_le_100:
  assumes "0 < p" and "p * 6 \<le> a"
  shows "max 0 (fl64 (100 - fl64 (fl64 (fl64 (rat_of_int a / rat_of_int (p * 6)) - 1) * 20))) \<le> 100"
proof -
  have "1 \<le> fl64 (rat_of_int a / rat_of_int (p * 6))"
    using efficiency_ge_one [OF assms] by (rule fl64_ge_int) simp_all
  then have "0 \<le> fl64 (fl64 (rat_of_int a / rat_of_int (p * 6)) - 1)"
    by (intro fl64_nonneg) simp
  then have "0 \<le> fl64 (fl64 (fl64 (rat_of_int a / rat_of_int (p * 6)) - 1) * 20)"
    by (intro fl64_nonneg) simp
  then have "100 - fl64 (fl64 (fl64 (rat_of_int a / rat_of_int (p * 6)) - 1) * 20) \<le> 100"
    by simp
  then have "fl64 (100 - fl64 (fl64 (fl64 (rat_of_int a / rat_of_int (p * 6)) - 1) * 20)) \<le> 100"
    by (rule fl64_le_int) simp_all
  then show ?thesis by simp
qed

lemma areaPoints_antitone:
  assumes "0 < p" and "a \<le> a'"
  shows "max 0 (fl64 (100 - fl64 (fl64 (fl64 (rat_of_int a' / rat_of_int (p * 6)) - 1) * 20)))
       \<le> max 0 (fl64 (100 - fl64 (fl64 (fl64 (rat_of_int a / rat_of_int (p * 6)) - 1) * 20)))"
proof -
  have "rat_of_int a / rat_of_int (p * 6) \<le> rat_of_int a' / rat_of_int (p * 6)"
    using assms by (simp add: divide_right_mono)
  then have "fl64 (rat_of_int a / rat_of_int (p * 6)) \<le> fl64 (rat_of_int a' / rat_of_int (p * 6))"
    by (rule fl64_mono)
  then have "fl64 (fl64 (rat_of_int a / rat_of_int (p * 6)) - 1)
           \<le> fl64 (fl64 (rat_of_int a' / rat_of_int (p * 6)) - 1)"
    by (intro fl64_mono) simp
  then have "fl64 (fl64 (fl64 (rat_of_int a / rat_of_int (p * 6)) - 1) * 20)
           \<le> fl64 (fl64 (fl64 (rat_of_int a' / rat_of_int (p * 6)) - 1) * 20)"
    by (intro fl64_mono) simp
  then have "fl64 (100 - fl64 (fl64 (fl64 (rat_of_int a' / rat_of_int (p * 6)) - 1) * 20))
           \<le> fl64 (100 - fl64 (fl64 (fl64 (rat_of_int a / rat_of_int (p * 6)) - 1) * 20))"
    by (intro fl64_mono) simp
  then show ?thesis by (simp add: max_def)
qed

lemma areaPoints_double: "fl64 (max 0 (fl64 y)) = max 0 (fl64 y)"
  by (simp add: max_def)

text \<open>One bonus: the sum is rounded when the bonus is added.\<close>

lemma bonus_mono:
  "s \<le> s' \<Longrightarrow> (if b then fl64 (s + c) else s) \<le> (if b then fl64 (s' + c) else s')"
  by (simp add: fl64_mono)

lemma bonus_ge:
  assumes "fl64 s = s" and "0 \<le> c"
  shows "s \<le> (if b then fl64 (s + c) else s)"
proof -
  have "fl64 s \<le> fl64 (s + c)"
    using assms(2) by (intro fl64_mono) simp
  then show ?thesis
    by (simp add: assms(1))
qed

lemma bonus_double: "fl64 s = s \<Longrightarrow> fl64 (if b then fl64 (s + c) else s) = (if b then fl64 (s + c) else s)"
  by simp

lemma bonus_lower:
  assumes "l \<le> s" and "0 \<le> c" and "l \<in> \<int>" and "\<bar>l\<bar> < 2 ^ 53"
  shows "l \<le> (if b then fl64 (s + c) else s)"
proof -
  have "l \<le> s + c"
    using assms(1,2) by simp
  then have "l \<le> fl64 (s + c)"
    using assms(3,4) by (rule fl64_ge_int)
  then show ?thesis
    using assms(1) by simp
qed

lemma bonus_upper:
  assumes "s \<le> h" and "0 \<le> c" and "h + c \<in> \<int>" and "\<bar>h + c\<bar> < 2 ^ 53"
  shows "(if b then fl64 (s + c) else s) \<le> h + c"
proof -
  have "s + c \<le> h + c"
    using assms(1) by simp
  then have "fl64 (s + c) \<le> h + c"
    using assms(3,4) by (rule fl64_le_int)
  moreover have "s \<le> h + c"
    using assms(1,2) by simp
  ultimately show ?thesis
    by simp
qed

lemma num_le_Num: "num_le (Num a) (Num b) \<longleftrightarrow> a \<le> b"
  by (auto simp add: num_le_def)

text \<open>An available venue with the facilities and the area scores at least 80.\<close>

lemma calculateScore_exact_ge_80:
  assumes "participants r \<noteq> 0"
  shows "\<exists>q. calculateScore v r True True True = Num q \<and> 80 \<le> q"
proof -
  define s1 where "s1 = max 0 (fl64 (100 - fl64 (fl64 (fl64 (rat_of_int (area_sqft v)
                 / rat_of_int (participants r * 6)) - 1) * 20)))"
  define s4 where "s4 = (if participants r \<le> capacity v
      then fl64 (fl64 (fl64 (s1 + 50) + 30) + 20) else fl64 (fl64 (s1 + 50) + 30))"
  define s5 where "s5 = (if priority r = High then fl64 (s4 + 10) else s4)"
  have sc: "calculateScore v r True True True = Num s5"
    unfolding calculateScore_finite [OF assms] s5_def s4_def s1_def Let_def by simp
  have "0 \<le> s1" by (simp add: s1_def)
  then have "50 \<le> fl64 (s1 + 50)"
    by (intro fl64_ge_int) simp_all
  then have "80 \<le> fl64 (fl64 (s1 + 50) + 30)"
    by (intro fl64_ge_int) simp_all
  then have "80 \<le> s4"
    unfolding s4_def by (rule bonus_lower) simp_all
  then have "80 \<le> s5"
    unfolding s5_def by (rule bonus_lower) simp_all
  with sc show ?thesis by blast
qed

text \<open>
  Claim C7. For every venue and every requirements value (a positive participant count,
  as the data model has it), the score that \<open>calculateScore\<close> returns for the venue,
  with \<open>areaMatch\<close> computed as \<open>findBestVenues\<close> computes it and whatever the availability
  and the facilities are, is a finite number between 0 and 210.
\<close>

theorem calculateScore_bounds:
  assumes "0 < participants r"
  shows "\<exists>q. calculateScore v r ia hf (calculateRequiredArea (participants r) \<le> area_sqft v) = Num q
           \<and> 0 \<le> q \<and> q \<le> 210"
proof -
  let ?am = "calculateRequiredArea (participants r) \<le> area_sqft v"
  define s1 where "s1 = (if ?am then
      max 0 (fl64 (100 - fl64 (fl64 (fl64 (rat_of_int (area_sqft v)
                 / rat_of_int (participants r * 6)) - 1) * 20)))
      else 0)"
  define s2 where "s2 = (if ia then fl64 (s1 + 50) else s1)"
  define s3 where "s3 = (if hf then fl64 (s2 + 30) else s2)"
  define s4 where "s4 = (if participants r \<le> capacity v then fl64 (s3 + 20) else s3)"
  define s5 where "s5 = (if priority r = High then fl64 (s4 + 10) else s4)"
  have ne: "participants r \<noteq> 0" using assms by simp
  have sc: "calculateScore v r ia hf ?am = Num s5"
    unfolding calculateScore_finite [OF ne] s5_def s4_def s3_def s2_def s1_def Let_def ..
  have b1: "0 \<le> s1" "s1 \<le> 100"
    using areaPoints_le_100 [OF assms, of "area_sqft v"]
    by (simp_all add: s1_def calculateRequiredArea_def)
  have b2: "0 \<le> s2" "s2 \<le> 100 + 50"
    unfolding s2_def by (rule bonus_lower [OF b1(1)]; simp) (rule bonus_upper [OF b1(2)]; simp)
  have b3: "0 \<le> s3" "s3 \<le> 100 + 50 + 30"
    unfolding s3_def by (rule bonus_lower [OF b2(1)]; simp) (rule bonus_upper [OF b2(2)]; simp)
  have b4: "0 \<le> s4" "s4 \<le> 100 + 50 + 30 + 20"
    unfolding s4_def by (rule bonus_lower [OF b3(1)]; simp) (rule bonus_upper [OF b3(2)]; simp)
  have b5: "0 \<le> s5" "s5 \<le> 100 + 50 + 30 + 20 + 10"
    unfolding s5_def by (rule bonus_lower [OF b4(1)]; simp) (rule bonus_upper [OF b4(2)]; simp)
  from b5 have "0 \<le> s5" "s5 \<le> 210" by simp_all
  with sc show ?thesis by blast
qed

theorem calculateScore_bounds_witness:
  "0 < participants (mkRequirements 100 [] ''2025-09-26 11:00'' High)
   \<and> (\<exists>q. calculateScore seminarHallA (mkRequirements 100 [] ''2025-09-26 11:00'' High) True True
             (calculateRequiredArea (participants (mkRequirements 100 [] ''2025-09-26 11:00'' High))
                \<le> area_sqft seminarHallA) = Num q
           \<and> 0 \<le> q \<and> q \<le> 210)"
proof -
  have h: "0 < participants (mkRequirements 100 [] ''2025-09-26 11:00'' High)"
    by (simp add: mkRequirements_def)
  show ?thesis
    using h calculateScore_bounds [OF h, of seminarHallA True True] by simp
qed

text \<open>
  Claim C8. With a positive participant count, the score never decreases when one of
  \<open>areaMatch\<close>, \<open>isAvailable\<close>, \<open>hasFacilities\<close> goes from false to true, when the capacity
  of the venue goes from below the participant count to at least it, or when the priority
  becomes \<open>high\<close>, everything else being the same.
\<close>

theorem calculateScore_monotone:
  assumes "0 < participants r"
  shows "num_le (calculateScore v r ia hf False) (calculateScore v r ia hf True)
       \<and> num_le (calculateScore v r False hf am) (calculateScore v r True hf am)
       \<and> num_le (calculateScore v r ia False am) (calculateScore v r ia True am)
       \<and> (capacity v < participants r \<longrightarrow> participants r \<le> c \<longrightarrow>
            num_le (calculateScore v r ia hf am) (calculateScore (v\<lparr>capacity := c\<rparr>) r ia hf am))
       \<and> num_le (calculateScore v r ia hf am) (calculateScore v (r\<lparr>priority := High\<rparr>) ia hf am)"
proof -
  define g where "g = max 0 (fl64 (100 - fl64 (fl64 (fl64 (rat_of_int (area_sqft v)
                 / rat_of_int (participants r * 6)) - 1) * 20)))"
  define st where "st = (\<lambda>b c s. if b then fl64 (s + c) else (s::rat))"
  define hi where "hi = (participants r \<le> capacity v)"
  define pr where "pr = (priority r = High)"
  have ne: "participants r \<noteq> 0" using assms by simp
  have ne': "participants (r\<lparr>priority := High\<rparr>) \<noteq> 0" using assms by simp
  have sc: "calculateScore v r a b c' =
      Num (st pr 10 (st hi 20 (st b 30 (st a 50 (if c' then g else 0)))))" for a b c'
    unfolding calculateScore_finite [OF ne] st_def g_def hi_def pr_def Let_def ..
  have mono: "st b k s \<le> st b k s'" if "s \<le> s'" for b k s s'
    unfolding st_def using that by (rule bonus_mono)
  have up: "st False k s \<le> st True k s" if "fl64 s = s" "0 \<le> k" for k s
    using bonus_ge [OF that, of True] by (simp add: st_def)
  have dbl: "fl64 (st b k s) = st b k s" if "fl64 s = s" for b k s
    unfolding st_def using that by (rule bonus_double)
  have g0: "0 \<le> g" by (simp add: g_def)
  have gd: "fl64 (if c' then g else 0) = (if c' then g else 0)" for c'
    by (simp add: g_def areaPoints_double)
  have c1: "num_le (calculateScore v r ia hf False) (calculateScore v r ia hf True)"
    unfolding sc num_le_Num using g0 by (intro mono) simp
  have c2: "num_le (calculateScore v r False hf am) (calculateScore v r True hf am)"
    unfolding sc num_le_Num by (intro mono up gd) simp
  have c3: "num_le (calculateScore v r ia False am) (calculateScore v r ia True am)"
    unfolding sc num_le_Num by (intro mono up dbl gd) simp
  have c4: "num_le (calculateScore v r ia hf am) (calculateScore (v\<lparr>capacity := c\<rparr>) r ia hf am)"
    if "capacity v < participants r" "participants r \<le> c"
  proof -
    have "calculateScore (v\<lparr>capacity := c\<rparr>) r ia hf am =
        Num (st pr 10 (st True 20 (st hf 30 (st ia 50 (if am then g else 0)))))"
      unfolding calculateScore_finite [OF ne] st_def g_def pr_def Let_def using that(2) by simp
    moreover have "calculateScore v r ia hf am =
        Num (st pr 10 (st False 20 (st hf 30 (st ia 50 (if am then g else 0)))))"
      unfolding sc hi_def using that(1) by simp
    moreover have "st pr 10 (st False 20 (st hf 30 (st ia 50 (if am then g else 0))))
        \<le> st pr 10 (st True 20 (st hf 30 (st ia 50 (if am then g else 0))))"
      by (intro mono up dbl gd) simp
    ultimately show ?thesis by (simp only: num_le_Num)
  qed
  have c5: "num_le (calculateScore v r ia hf am) (calculateScore v (r\<lparr>priority := High\<rparr>) ia hf am)"
  proof -
    have "calculateScore v (r\<lparr>priority := High\<rparr>) ia hf am =
        Num (st True 10 (st hi 20 (st hf 30 (st ia 50 (if am then g else 0)))))"
      unfolding calculateScore_finite [OF ne'] st_def g_def hi_def Let_def by simp
    moreover have "st pr 10 (st hi 20 (st hf 30 (st ia 50 (if am then g else 0))))
        \<le> st True 10 (st hi 20 (st hf 30 (st ia 50 (if am then g else 0))))"
    proof (cases pr)
      case True
      then show ?thesis by simp
    next
      case False
      then show ?thesis
        by (simp only: if_False) (intro up dbl gd, simp)
    qed
    ultimately show ?thesis unfolding sc by (simp only: num_le_Num)
  qed
  from c1 c2 c3 c4 c5 show ?thesis by blast
qed

theorem calculateScore_monotone_witness:
  "0 < participants (mkRequirements 100 [] ''2025-09-26 11:00'' Medium)
   \<and> capacity computerLab1 < participants (mkRequirements 100 [] ''2025-09-26 11:00'' Medium)
   \<and> participants (mkRequirements 100 [] ''2025-09-26 11:00'' Medium) \<le> 100
   \<and> num_le (calculateScore computerLab1 (mkRequirements 100 [] ''2025-09-26 11:00'' Medium) True True False)
        (calculateScore computerLab1 (mkRequirements 100 [] ''2025-09-26 11:00'' Medium) True True True)
   \<and> num_le (calculateScore computerLab1 (mkRequirements 100 [] ''2025-09-26 11:00'' Medium) True True True)
        (calculateScore (computerLab1\<lparr>capacity := 100\<rparr>)
           (mkRequirements 100 [] ''2025-09-26 11:00'' Medium) True True True)
   \<and> num_le (calculateScore computerLab1 (mkRequirements 100 [] ''2025-09-26 11:00'' Medium) True True True)
        (calculateScore computerLab1
           ((mkRequirements 100 [] ''2025-09-26 11:00'' Medium)\<lparr>priority := High\<rparr>) True True True)"
proof -
  let ?r = "mkRequirements 100 [] ''2025-09-26 11:00'' Medium"
  have h: "0 < participants ?r"
    by (simp add: mkRequirements_def)
  have c1: "capacity computerLab1 < participants ?r"
    by (simp add: mkRequirements_def computerLab1_def mkVenue_def)
  have c2: "participants ?r \<le> 100"
    by (simp add: mkRequirements_def)
  show ?thesis
    using h c1 c2 calculateScore_monotone [OF h, of computerLab1 True True True 100]
    by simp
qed

section \<open>The result of findBestVenues\<close>

lemma mset_insertSorted: "mset (insertSorted cmp x ys) = add_mset x (mset ys)"
  by (induction ys) simp_all

lemma mset_array_sort: "mset (array_sort cmp xs) = mset xs"
  by (induction xs) (simp_all add: array_sort_def mset_insertSorted)

lemma set_array_sort: "set (array_sort cmp xs) = set xs"
  using mset_array_sort [of cmp xs] by (metis set_mset_mset)

lemma length_array_sort: "length (array_sort cmp xs) = length xs"
  using mset_array_sort [of cmp xs] by (metis size_mset)

lemma array_sort_Nil_iff: "array_sort cmp xs = [] \<longleftrightarrow> xs = []"
  using length_array_sort [of cmp xs] by (metis length_0_conv)

lemma venueMatchOf_Inr:
  assumes "venueMatchOf h r v = Inr m"
  obtains ia where "isVenueAvailable h v (preferredDateTime r) = Inr ia"
    and "venue m = v"
    and "score m = calculateScore v r ia (hasFacilities v (facilitiesRequired r))
                     (calculateRequiredArea (participants r) \<le> area_sqft v)"
    and "alternative m = (\<not> calculateRequiredArea (participants r) \<le> area_sqft v \<or> \<not> ia
                           \<or> \<not> hasFacilities v (facilitiesRequired r))"
  using assms
  by (auto simp: venueMatchOf_def Let_def split: sum.splits)

lemma venueMatchOf_venue: "venueMatchOf h r v = Inr m \<Longrightarrow> venue m = v"
  by (erule venueMatchOf_Inr)

lemma forEachVenue_Inr:
  assumes "forEachVenue h r vs (ms0, as0) = Inr (ms, as)"
  shows "\<exists>xs. list_all2 (\<lambda>v m. venueMatchOf h r v = Inr m) vs xs
            \<and> ms = ms0 @ filter (\<lambda>m. \<not> alternative m) xs
            \<and> as = as0 @ filter alternative xs"
  using assms
proof (induction vs arbitrary: ms0 as0)
  case Nil
  then show ?case by simp
next
  case (Cons v vs)
  from Cons.prems obtain m where m: "venueMatchOf h r v = Inr m"
    by (auto split: sum.splits)
  show ?case
  proof (cases "alternative m")
    case True
    with Cons.prems m have "forEachVenue h r vs (ms0, as0 @ [m]) = Inr (ms, as)"
      by simp
    from Cons.IH [OF this] obtain xs where
      "list_all2 (\<lambda>v m. venueMatchOf h r v = Inr m) vs xs"
      "ms = ms0 @ filter (\<lambda>m. \<not> alternative m) xs"
      "as = (as0 @ [m]) @ filter alternative xs"
      by blast
    with m True show ?thesis
      by (intro exI [of _ "m # xs"]) simp
  next
    case False
    with Cons.prems m have "forEachVenue h r vs (ms0 @ [m], as0) = Inr (ms, as)"
      by simp
    from Cons.IH [OF this] obtain xs where
      "list_all2 (\<lambda>v m. venueMatchOf h r v = Inr m) vs xs"
      "ms = (ms0 @ [m]) @ filter (\<lambda>m. \<not> alternative m) xs"
      "as = as0 @ filter alternative xs"
      by blast
    with m False show ?thesis
      by (intro exI [of _ "m # xs"]) simp
  qed
qed

lemma findBestVenues_Inr:
  assumes "findBestVenues h vs r = Inr res"
  obtains xs where "list_all2 (\<lambda>v m. venueMatchOf h r v = Inr m) vs xs"
    and "exactMatches res =
           (if priority r = High \<and> filter (\<lambda>m. \<not> alternative m) xs \<noteq> []
            then array_sort byTightFit (array_sort byScoreDesc (filter (\<lambda>m. \<not> alternative m) xs))
            else array_sort byScoreDesc (filter (\<lambda>m. \<not> alternative m) xs))"
    and "alternatives res = take 3 (array_sort byScoreDesc (filter alternative xs))"
proof -
  from assms obtain ms as where fe: "forEachVenue h r vs ([], []) = Inr (ms, as)"
    by (auto simp: findBestVenues_def split: sum.splits)
  from forEachVenue_Inr [OF fe] obtain xs where
    xs: "list_all2 (\<lambda>v m. venueMatchOf h r v = Inr m) vs xs"
      "ms = filter (\<lambda>m. \<not> alternative m) xs" "as = filter alternative xs"
    by auto
  from assms fe have
    "res = \<lparr>exactMatches =
              (if priority r = High \<and> array_sort byScoreDesc ms \<noteq> []
               then array_sort byTightFit (array_sort byScoreDesc ms)
               else array_sort byScoreDesc ms),
            alternatives = take 3 (array_sort byScoreDesc as),
            noMatch = ((if priority r = High \<and> array_sort byScoreDesc ms \<noteq> []
               then array_sort byTightFit (array_sort byScoreDesc ms)
               else array_sort byScoreDesc ms) = [] \<and> array_sort byScoreDesc as = [])\<rparr>"
    by (simp add: findBestVenues_def Let_def)
  then have "exactMatches res =
           (if priority r = High \<and> ms \<noteq> []
            then array_sort byTightFit (array_sort byScoreDesc ms)
            else array_sort byScoreDesc ms)"
    and "alternatives res = take 3 (array_sort byScoreDesc as)"
    by (simp_all add: array_sort_Nil_iff)
  with xs that show ?thesis by simp
qed

lemma exactMatches_mset:
  assumes "exactMatches res =
           (if priority r = High \<and> ms \<noteq> []
            then array_sort byTightFit (array_sort byScoreDesc ms)
            else array_sort byScoreDesc ms)"
  shows "mset (exactMatches res) = mset ms"
  using assms by (simp add: mset_array_sort)

lemma list_all2_venueMatchOf_map:
  "list_all2 (\<lambda>v m. venueMatchOf h r v = Inr m) vs xs \<Longrightarrow> map venue xs = vs"
  by (induction vs xs rule: list_all2_induct) (simp_all add: venueMatchOf_venue)

lemma list_all2_venueMatchOf_mem:
  "list_all2 (\<lambda>v m. venueMatchOf h r v = Inr m) vs xs \<Longrightarrow> m \<in> set xs \<Longrightarrow>
     venueMatchOf h r (venue m) = Inr m"
  by (induction vs xs rule: list_all2_induct) (auto simp: venueMatchOf_venue)

text \<open>
  Whenever the host's \<open>Date\<close> accepts the requested date-time, \<open>findBestVenues\<close> returns
  a result. (Without booked slots in the catalog it returns one in any case.)
\<close>

lemma isVenueAvailable_returns:
  "isoDate h dt = Some d \<Longrightarrow> \<exists>b. isVenueAvailable h v dt = Inr b"
  by (auto simp: isVenueAvailable_def split: option.splits)

lemma venueMatchOf_returns:
  assumes "isoDate h (preferredDateTime r) = Some d"
  shows "\<exists>m. venueMatchOf h r v = Inr m"
proof -
  from isVenueAvailable_returns [OF assms] obtain b where
    "isVenueAvailable h v (preferredDateTime r) = Inr b" by blast
  then show ?thesis by (simp add: venueMatchOf_def Let_def)
qed

lemma forEachVenue_returns:
  assumes "isoDate h (preferredDateTime r) = Some d"
  shows "\<exists>acc'. forEachVenue h r vs acc = Inr acc'"
proof (induction vs arbitrary: acc)
  case Nil
  then show ?case by simp
next
  case (Cons v vs)
  from venueMatchOf_returns [OF assms] obtain m where m: "venueMatchOf h r v = Inr m" by blast
  obtain ms as where acc: "acc = (ms, as)" by (cases acc)
  show ?case
  proof (cases "alternative m")
    case True
    with m acc Cons.IH [of "(ms, as @ [m])"] show ?thesis by simp
  next
    case False
    with m acc Cons.IH [of "(ms @ [m], as)"] show ?thesis by simp
  qed
qed

lemma findBestVenues_returns:
  assumes "isoDate h (preferredDateTime r) = Some d"
  shows "\<exists>res. findBestVenues h vs r = Inr res"
proof -
  from forEachVenue_returns [OF assms] obtain ms as where
    "forEachVenue h r vs ([], []) = Inr (ms, as)" by fastforce
  then show ?thesis by (simp add: findBestVenues_def Let_def)
qed

lemma seeded_medium_returns:
  "(case findBestVenues utcHost seededVenues (mkRequirements 200 [] ''2025-09-26 11:00'' Medium) of
      Inl e \<Rightarrow> False
    | Inr res \<Rightarrow>
        map venue (exactMatches res) = [seminarHallA, computerLab1]
        \<and> map venue (alternatives res) = [basketballCourt, mainAuditorium, computerLab2])"
  by code_simp

text \<open>
  Claim C10. Every entry of the \<open>exactMatches\<close> list that \<open>findBestVenues\<close> returns has a
  score of at least 80, for every host, catalog and requirements value with a positive
  participant count: an exact match is available (50) and has the facilities (30), and
  its area term is not negative.
\<close>

theorem exactMatches_score_ge_80:
  assumes "findBestVenues h vs r = Inr res" and "0 < participants r"
  shows "\<forall>m\<in>set (exactMatches res). \<exists>q. score m = Num q \<and> 80 \<le> q"
proof
  fix m assume m: "m \<in> set (exactMatches res)"
  from findBestVenues_Inr [OF assms(1)] obtain xs where
    xs: "list_all2 (\<lambda>v m. venueMatchOf h r v = Inr m) vs xs"
    and ex: "exactMatches res =
           (if priority r = High \<and> filter (\<lambda>m. \<not> alternative m) xs \<noteq> []
            then array_sort byTightFit (array_sort byScoreDesc (filter (\<lambda>m. \<not> alternative m) xs))
            else array_sort byScoreDesc (filter (\<lambda>m. \<not> alternative m) xs))"
    by blast
  from exactMatches_mset [OF ex] m have "m \<in> set (filter (\<lambda>m. \<not> alternative m) xs)"
    by (metis set_mset_mset)
  then have mx: "m \<in> set xs" and na: "\<not> alternative m" by simp_all
  from list_all2_venueMatchOf_mem [OF xs mx] have vm: "venueMatchOf h r (venue m) = Inr m" .
  from vm obtain ia where
    sc: "score m = calculateScore (venue m) r ia (hasFacilities (venue m) (facilitiesRequired r))
                     (calculateRequiredArea (participants r) \<le> area_sqft (venue m))"
    and al: "alternative m = (\<not> calculateRequiredArea (participants r) \<le> area_sqft (venue m) \<or> \<not> ia
                           \<or> \<not> hasFacilities (venue m) (facilitiesRequired r))"
    by (elim venueMatchOf_Inr) simp
  from na al have all3: "calculateRequiredArea (participants r) \<le> area_sqft (venue m)" "ia"
    "hasFacilities (venue m) (facilitiesRequired r)" by simp_all
  have ne: "participants r \<noteq> 0" using assms(2) by simp
  show "\<exists>q. score m = Num q \<and> 80 \<le> q"
    unfolding sc using all3 calculateScore_exact_ge_80 [OF ne, of "venue m"] by simp
qed

theorem exactMatches_score_ge_80_witness:
  "\<exists>res. findBestVenues utcHost seededVenues (mkRequirements 200 [] ''2025-09-26 11:00'' Medium) = Inr res
      \<and> 0 < participants (mkRequirements 200 [] ''2025-09-26 11:00'' Medium)
      \<and> exactMatches res \<noteq> []
      \<and> list_all (\<lambda>m. \<exists>q. score m = Num q \<and> 80 \<le> q) (exactMatches res)"
proof -
  let ?r = "mkRequirements 200 [] ''2025-09-26 11:00'' Medium"
  from seeded_medium_returns obtain res where
    res: "findBestVenues utcHost seededVenues ?r = Inr res"
    and ex: "map venue (exactMatches res) = [seminarHallA, computerLab1]"
    by (auto split: sum.splits)
  have pos: "0 < participants ?r" by (simp add: mkRequirements_def)
  from ex have ne: "exactMatches res \<noteq> []" by auto
  from exactMatches_score_ge_80 [OF res pos]
  have "list_all (\<lambda>m. \<exists>q. score m = Num q \<and> 80 \<le> q) (exactMatches res)"
    by (simp add: list_all_iff)
  with res pos ne show ?thesis by blast
qed

text \<open>
  Claim C1 says that every venue of the catalog appears in exactly one of the two returned
  lists. The returned \<open>alternatives\<close> is cut to its first three entries, so the claim fails
  on the seeded catalog with 200 participants: four venues fail a constraint, and
  \<open>Classroom Block 101\<close> is in neither list.
\<close>

theorem findBestVenues_not_partition:
  "\<not> (\<forall>res. findBestVenues utcHost seededVenues
                (mkRequirements 200 [] ''2025-09-26 11:00'' Medium) = Inr res \<longrightarrow>
          (\<forall>v\<in>set seededVenues.
             (v \<in> set (map venue (exactMatches res))) \<noteq> (v \<in> set (map venue (alternatives res)))))"
proof
  let ?r = "mkRequirements 200 [] ''2025-09-26 11:00'' Medium"
  assume a: "\<forall>res. findBestVenues utcHost seededVenues ?r = Inr res \<longrightarrow>
          (\<forall>v\<in>set seededVenues.
             (v \<in> set (map venue (exactMatches res))) \<noteq> (v \<in> set (map venue (alternatives res))))"
  from seeded_medium_returns obtain res where
    res: "findBestVenues utcHost seededVenues ?r = Inr res"
    and ex: "map venue (exactMatches res) = [seminarHallA, computerLab1]"
    and al: "map venue (alternatives res) = [basketballCourt, mainAuditorium, computerLab2]"
    by (auto split: sum.splits)
  have mem: "classroom101 \<in> set seededVenues" by (simp add: seededVenues_def)
  have "classroom101 \<notin> set [seminarHallA, computerLab1]"
    and "classroom101 \<notin> set [basketballCourt, mainAuditorium, computerLab2]"
    by code_simp+
  with a res mem ex al show False by metis
qed

text \<open>
  Claim C1, amended. The venues of the two returned lists come from the catalog, each at
  most as often as the catalog holds it, and no venue is in both lists. \<open>alternatives\<close>
  holds three entries or, if fewer, one for every venue that is not an exact match. A
  venue of the catalog that is in neither list fails a constraint, and more than three
  venues of the catalog do.
\<close>

theorem findBestVenues_partition_up_to_cap:
  assumes "findBestVenues h vs r = Inr res"
  shows "mset (map venue (exactMatches res)) + mset (map venue (alternatives res)) \<subseteq># mset vs
       \<and> set (map venue (exactMatches res)) \<inter> set (map venue (alternatives res)) = {}
       \<and> length (alternatives res) = min 3 (length vs - length (exactMatches res))
       \<and> (\<forall>v\<in>set vs. v \<notin> set (map venue (exactMatches res)) \<longrightarrow>
                      v \<notin> set (map venue (alternatives res)) \<longrightarrow>
            (\<exists>m. venueMatchOf h r v = Inr m \<and> alternative m)
            \<and> 3 < length vs - length (exactMatches res))"
proof -
  from findBestVenues_Inr [OF assms] obtain xs where
    xs: "list_all2 (\<lambda>v m. venueMatchOf h r v = Inr m) vs xs"
    and ex: "exactMatches res =
           (if priority r = High \<and> filter (\<lambda>m. \<not> alternative m) xs \<noteq> []
            then array_sort byTightFit (array_sort byScoreDesc (filter (\<lambda>m. \<not> alternative m) xs))
            else array_sort byScoreDesc (filter (\<lambda>m. \<not> alternative m) xs))"
    and al: "alternatives res = take 3 (array_sort byScoreDesc (filter alternative xs))"
    by blast
  let ?E = "filter (\<lambda>m. \<not> alternative m) xs"
  let ?A = "array_sort byScoreDesc (filter alternative xs)"
  have mE: "mset (exactMatches res) = mset ?E"
    by (rule exactMatches_mset [OF ex])
  have mA: "mset ?A = mset (filter alternative xs)"
    by (rule mset_array_sort)
  have vs: "map venue xs = vs"
    by (rule list_all2_venueMatchOf_map [OF xs])
  have split_xs: "mset ?E + mset (filter alternative xs) = mset xs"
    by (induction xs) simp_all
  have take_sub: "mset (take 3 ?A) \<subseteq># mset ?A"
    by (metis append_take_drop_id mset_append mset_subset_eq_add_left)
  have "mset (exactMatches res) + mset (alternatives res) \<subseteq># mset xs"
    using mE mA take_sub split_xs al
    by (metis subset_mset.add_left_mono)
  then have "image_mset venue (mset (exactMatches res) + mset (alternatives res))
               \<subseteq># image_mset venue (mset xs)"
    by (rule image_mset_subseteq_mono)
  then have part_a: "mset (map venue (exactMatches res)) + mset (map venue (alternatives res)) \<subseteq># mset vs"
    using vs by (metis image_mset_union mset_map)
  have setE: "set (exactMatches res) = set ?E"
    using mE by (metis set_mset_mset)
  have setA: "set (alternatives res) \<subseteq> set (filter alternative xs)"
    using al set_take_subset [of 3 ?A] by (simp add: set_array_sort)
  have part_b: "set (map venue (exactMatches res)) \<inter> set (map venue (alternatives res)) = {}"
  proof (rule ccontr)
    assume "set (map venue (exactMatches res)) \<inter> set (map venue (alternatives res)) \<noteq> {}"
    then obtain m m' where m: "m \<in> set (exactMatches res)" and m': "m' \<in> set (alternatives res)"
      and eq: "venue m = venue m'"
      by auto
    from m setE have mx: "m \<in> set xs" and na: "\<not> alternative m" by simp_all
    from m' setA have mx': "m' \<in> set xs" and a': "alternative m'" by auto
    have "Inr m = venueMatchOf h r (venue m)"
      by (rule list_all2_venueMatchOf_mem [OF xs mx, symmetric])
    also have "\<dots> = venueMatchOf h r (venue m')"
      by (simp only: eq)
    also have "\<dots> = Inr m'"
      by (rule list_all2_venueMatchOf_mem [OF xs mx'])
    finally have "m = m'" by (simp only: sum.inject)
    with na a' show False by simp
  qed
  have lenE: "length (exactMatches res) = length ?E"
    using mE by (metis size_mset)
  have len_xs: "length xs = length vs"
    using vs by (metis length_map)
  have len_split: "length ?E + length (filter alternative xs) = length xs"
    using split_xs by (metis size_mset size_union)
  have lenA: "length (filter alternative xs) = length vs - length (exactMatches res)"
    using lenE len_xs len_split by simp
  have part_c: "length (alternatives res) = min 3 (length vs - length (exactMatches res))"
    using al lenA by (simp add: length_array_sort min.commute)
  have part_d: "\<forall>v\<in>set vs. v \<notin> set (map venue (exactMatches res)) \<longrightarrow>
                      v \<notin> set (map venue (alternatives res)) \<longrightarrow>
            (\<exists>m. venueMatchOf h r v = Inr m \<and> alternative m)
            \<and> 3 < length vs - length (exactMatches res)"
  proof (intro ballI impI)
    fix v assume v: "v \<in> set vs"
      and nE: "v \<notin> set (map venue (exactMatches res))"
      and nA: "v \<notin> set (map venue (alternatives res))"
    from v vs obtain m where m: "m \<in> set xs" "venue m = v" by auto
    then have vm: "venueMatchOf h r v = Inr m"
      using list_all2_venueMatchOf_mem [OF xs] by auto
    have alt: "alternative m"
    proof (rule ccontr)
      assume "\<not> alternative m"
      with m setE have "m \<in> set (exactMatches res)" by simp
      with m nE show False by auto
    qed
    have "3 < length (filter alternative xs)"
    proof (rule ccontr)
      assume "\<not> 3 < length (filter alternative xs)"
      then have "alternatives res = ?A"
        using al by (simp add: length_array_sort)
      then have "set (alternatives res) = set (filter alternative xs)"
        by (simp add: set_array_sort)
      with m alt have "m \<in> set (alternatives res)" by simp
      with m nA show False by auto
    qed
    with lenA vm alt
    show "(\<exists>m. venueMatchOf h r v = Inr m \<and> alternative m)
            \<and> 3 < length vs - length (exactMatches res)"
      by auto
  qed
  from part_a part_b part_c part_d show ?thesis by blast
qed

theorem findBestVenues_partition_up_to_cap_witness:
  "\<exists>res. findBestVenues utcHost seededVenues (mkRequirements 200 [] ''2025-09-26 11:00'' Medium) = Inr res
      \<and> classroom101 \<in> set seededVenues
      \<and> classroom101 \<notin> set (map venue (exactMatches res))
      \<and> classroom101 \<notin> set (map venue (alternatives res))
      \<and> mset (map venue (exactMatches res)) + mset (map venue (alternatives res)) \<subseteq># mset seededVenues
      \<and> set (map venue (exactMatches res)) \<inter> set (map venue (alternatives res)) = {}
      \<and> length (alternatives res) = min 3 (length seededVenues - length (exactMatches res))
      \<and> 3 < length seededVenues - length (exactMatches res)"
proof -
  let ?r = "mkRequirements 200 [] ''2025-09-26 11:00'' Medium"
  from seeded_medium_returns obtain res where
    res: "findBestVenues utcHost seededVenues ?r = Inr res"
    and ex: "map venue (exactMatches res) = [seminarHallA, computerLab1]"
    and al: "map venue (alternatives res) = [basketballCourt, mainAuditorium, computerLab2]"
    by (auto split: sum.splits)
  have mem: "classroom101 \<in> set seededVenues" by (simp add: seededVenues_def)
  have "classroom101 \<notin> set [seminarHallA, computerLab1]"
    and "classroom101 \<notin> set [basketballCourt, mainAuditorium, computerLab2]"
    by code_simp+
  with ex al have out: "classroom101 \<notin> set (map venue (exactMatches res))"
    "classroom101 \<notin> set (map venue (alternatives res))"
    by simp_all
  from findBestVenues_partition_up_to_cap [OF res] mem out res show ?thesis
    by blast
qed

section \<open>The order of the exact matches of a high-priority request\<close>

text \<open>
  A sort by a comparator that is total and transitive on the elements leaves every pair
  of the result in the order of the comparator.
\<close>

lemma set_insertSorted: "set (insertSorted cmp x ys) = insert x (set ys)"
  using mset_insertSorted [of cmp x ys] by (metis set_mset_add_mset_insert set_mset_mset)

lemma sorted_wrt_insertSorted:
  assumes tot: "\<And>a b. a \<in> A \<Longrightarrow> b \<in> A \<Longrightarrow> num_less (Num 0) (cmp a b) \<Longrightarrow>
                  \<not> num_less (Num 0) (cmp b a)"
    and trans: "\<And>a b c. a \<in> A \<Longrightarrow> b \<in> A \<Longrightarrow> c \<in> A \<Longrightarrow> \<not> num_less (Num 0) (cmp a b) \<Longrightarrow>
                  \<not> num_less (Num 0) (cmp b c) \<Longrightarrow> \<not> num_less (Num 0) (cmp a c)"
    and "x \<in> A" and "set ys \<subseteq> A"
    and "sorted_wrt (\<lambda>a b. \<not> num_less (Num 0) (cmp a b)) ys"
  shows "sorted_wrt (\<lambda>a b. \<not> num_less (Num 0) (cmp a b)) (insertSorted cmp x ys)"
  using assms(4,5)
proof (induction ys)
  case Nil
  then show ?case by simp
next
  case (Cons y ys)
  from Cons.prems have y: "y \<in> A" and ys: "set ys \<subseteq> A"
    and y_ys: "\<forall>z\<in>set ys. \<not> num_less (Num 0) (cmp y z)"
    and s_ys: "sorted_wrt (\<lambda>a b. \<not> num_less (Num 0) (cmp a b)) ys"
    by simp_all
  show ?case
  proof (cases "num_less (Num 0) (cmp x y)")
    case True
    then have "\<not> num_less (Num 0) (cmp y x)"
      using tot [OF \<open>x \<in> A\<close> y] by simp
    with y_ys have "\<forall>z\<in>set (insertSorted cmp x ys). \<not> num_less (Num 0) (cmp y z)"
      by (simp add: set_insertSorted)
    moreover have "sorted_wrt (\<lambda>a b. \<not> num_less (Num 0) (cmp a b)) (insertSorted cmp x ys)"
      by (rule Cons.IH [OF ys s_ys])
    ultimately show ?thesis using True by simp
  next
    case False
    have "\<forall>z\<in>set ys. \<not> num_less (Num 0) (cmp x z)"
    proof
      fix z assume z: "z \<in> set ys"
      with ys have "z \<in> A" by auto
      from trans [OF \<open>x \<in> A\<close> y this False] y_ys z
      show "\<not> num_less (Num 0) (cmp x z)" by simp
    qed
    with False Cons.prems show ?thesis by simp
  qed
qed

lemma sorted_wrt_array_sort:
  assumes tot: "\<And>a b. a \<in> A \<Longrightarrow> b \<in> A \<Longrightarrow> num_less (Num 0) (cmp a b) \<Longrightarrow>
                  \<not> num_less (Num 0) (cmp b a)"
    and trans: "\<And>a b c. a \<in> A \<Longrightarrow> b \<in> A \<Longrightarrow> c \<in> A \<Longrightarrow> \<not> num_less (Num 0) (cmp a b) \<Longrightarrow>
                  \<not> num_less (Num 0) (cmp b c) \<Longrightarrow> \<not> num_less (Num 0) (cmp a c)"
    and "set xs \<subseteq> A"
  shows "sorted_wrt (\<lambda>a b. \<not> num_less (Num 0) (cmp a b)) (array_sort cmp xs)"
  using assms(3)
proof (induction xs)
  case Nil
  then show ?case by (simp add: array_sort_def)
next
  case (Cons x xs)
  then have x: "x \<in> A" and xs: "set xs \<subseteq> A" by simp_all
  have ih: "sorted_wrt (\<lambda>a b. \<not> num_less (Num 0) (cmp a b)) (array_sort cmp xs)"
    by (rule Cons.IH [OF xs])
  have sub: "set (array_sort cmp xs) \<subseteq> A"
    using xs by (simp add: set_array_sort)
  have "array_sort cmp (x # xs) = insertSorted cmp x (array_sort cmp xs)"
    by (simp add: array_sort_def)
  with sorted_wrt_insertSorted [of A cmp x "array_sort cmp xs", OF tot trans x sub ih]
  show ?case by simp
qed

text \<open>
  The order of \<open>byTightFit\<close> on entries of two classes, those with the capacity bonus
  and those without: inside a class the score falls as the area grows, and an entry with
  the bonus is 10 or more above every entry without it that is not smaller.
\<close>

lemma tight_fit_same:
  fixes ax ay :: int and sx sy :: rat
  assumes "ax \<le> ay \<Longrightarrow> sy \<le> sx" and "ay \<le> ax \<Longrightarrow> sx \<le> sy"
  shows "(if \<bar>sx - sy\<bar> < 10 then ax \<le> ay else sy \<le> sx) \<longleftrightarrow> ax \<le> ay"
  using assms by (cases "ax \<le> ay") (auto simp: abs_if split: if_splits)

lemma tight_fit_hi_lo:
  fixes ax ay :: int and sx sy :: rat
  assumes "ax \<le> ay \<Longrightarrow> sy + 10 \<le> sx"
  shows "(if \<bar>sx - sy\<bar> < 10 then ax \<le> ay else sy \<le> sx) \<longleftrightarrow> sy + 10 \<le> sx"
  using assms by (cases "ax \<le> ay") (auto simp: abs_if split: if_splits)

lemma tight_fit_lo_hi:
  fixes ax ay :: int and sx sy :: rat
  assumes "ay \<le> ax \<Longrightarrow> sx + 10 \<le> sy"
  shows "(if \<bar>sx - sy\<bar> < 10 then ax \<le> ay else sy \<le> sx) \<longleftrightarrow> sy < sx + 10"
  using assms by (cases "ay \<le> ax") (auto simp: abs_if split: if_splits)

lemma tight_fit_trans:
  fixes ar :: "'a \<Rightarrow> int" and hi :: "'a \<Rightarrow> bool" and S :: "'a \<Rightarrow> rat"
  assumes same: "\<And>x y. x \<in> A \<Longrightarrow> y \<in> A \<Longrightarrow> hi x = hi y \<Longrightarrow> ar x \<le> ar y \<Longrightarrow> S y \<le> S x"
    and gap: "\<And>x y. x \<in> A \<Longrightarrow> y \<in> A \<Longrightarrow> hi x \<Longrightarrow> \<not> hi y \<Longrightarrow> ar x \<le> ar y \<Longrightarrow> S y + 10 \<le> S x"
    and a: "a \<in> A" and b: "b \<in> A" and c: "c \<in> A"
    and ab: "if \<bar>S a - S b\<bar> < 10 then ar a \<le> ar b else S b \<le> S a"
    and bc: "if \<bar>S b - S c\<bar> < 10 then ar b \<le> ar c else S c \<le> S b"
  shows "if \<bar>S a - S c\<bar> < 10 then ar a \<le> ar c else S c \<le> S a"
proof -
  have s: "(if \<bar>S x - S y\<bar> < 10 then ar x \<le> ar y else S y \<le> S x) \<longleftrightarrow> ar x \<le> ar y"
    if "x \<in> A" "y \<in> A" "hi x = hi y" for x y
    by (rule tight_fit_same) (use that same [of x y] same [of y x] in simp_all)
  have hl: "(if \<bar>S x - S y\<bar> < 10 then ar x \<le> ar y else S y \<le> S x) \<longleftrightarrow> S y + 10 \<le> S x"
    if "x \<in> A" "y \<in> A" "hi x" "\<not> hi y" for x y
    by (rule tight_fit_hi_lo) (use that gap [of x y] in simp)
  have lh: "(if \<bar>S x - S y\<bar> < 10 then ar x \<le> ar y else S y \<le> S x) \<longleftrightarrow> S y < S x + 10"
    if "x \<in> A" "y \<in> A" "\<not> hi x" "hi y" for x y
    by (rule tight_fit_lo_hi) (use that gap [of y x] in simp)
  show ?thesis
  proof (cases "hi a")
    case ha: True
    show ?thesis
    proof (cases "hi b")
      case hb: True
      from ab have ab': "ar a \<le> ar b" using s [OF a b] ha hb by simp
      show ?thesis
      proof (cases "hi c")
        case hc: True
        from bc have "ar b \<le> ar c" using s [OF b c] hb hc by simp
        with ab' have "ar a \<le> ar c" by simp
        then show ?thesis using s [OF a c] ha hc by simp
      next
        case hc: False
        from bc have "S c + 10 \<le> S b" using hl [OF b c hb hc] by simp
        moreover have "S b \<le> S a" using same [OF a b _ ab'] ha hb by simp
        ultimately have "S c + 10 \<le> S a" by simp
        then show ?thesis using hl [OF a c ha hc] by simp
      qed
    next
      case hb: False
      from ab have ab': "S b + 10 \<le> S a" using hl [OF a b ha hb] by simp
      show ?thesis
      proof (cases "hi c")
        case hc: True
        from bc have "S c < S b + 10" using lh [OF b c hb hc] by simp
        with ab' have lt: "S c < S a" by simp
        have "ar a \<le> ar c"
        proof (rule ccontr)
          assume "\<not> ar a \<le> ar c"
          then have "ar c \<le> ar a" by simp
          from same [OF c a _ this] ha hc have "S a \<le> S c" by simp
          with lt show False by simp
        qed
        then show ?thesis using s [OF a c] ha hc by simp
      next
        case hc: False
        from bc have "ar b \<le> ar c" using s [OF b c] hb hc by simp
        from same [OF b c _ this] hb hc have "S c \<le> S b" by simp
        with ab' have "S c + 10 \<le> S a" by simp
        then show ?thesis using hl [OF a c ha hc] by simp
      qed
    qed
  next
    case ha: False
    show ?thesis
    proof (cases "hi b")
      case hb: True
      from ab have ab': "S b < S a + 10" using lh [OF a b ha hb] by simp
      show ?thesis
      proof (cases "hi c")
        case hc: True
        from bc have "ar b \<le> ar c" using s [OF b c] hb hc by simp
        from same [OF b c _ this] hb hc have "S c \<le> S b" by simp
        with ab' have "S c < S a + 10" by simp
        then show ?thesis using lh [OF a c ha hc] by simp
      next
        case hc: False
        from bc have "S c + 10 \<le> S b" using hl [OF b c hb hc] by simp
        with ab' have lt: "S c < S a" by simp
        have "ar a \<le> ar c"
        proof (rule ccontr)
          assume "\<not> ar a \<le> ar c"
          then have "ar c \<le> ar a" by simp
          from same [OF c a _ this] ha hc have "S a \<le> S c" by simp
          with lt show False by simp
        qed
        then show ?thesis using s [OF a c] ha hc by simp
      qed
    next
      case hb: False
      from ab have ab': "ar a \<le> ar b" using s [OF a b] ha hb by simp
      show ?thesis
      proof (cases "hi c")
        case hc: True
        from bc have "S c < S b + 10" using lh [OF b c hb hc] by simp
        moreover have "S b \<le> S a" using same [OF a b _ ab'] ha hb by simp
        ultimately have "S c < S a + 10" by simp
        then show ?thesis using lh [OF a c ha hc] by simp
      next
        case hc: False
        from bc have "ar b \<le> ar c" using s [OF b c] hb hc by simp
        with ab' have "ar a \<le> ar c" by simp
        then show ?thesis using s [OF a c] ha hc by simp
      qed
    qed
  qed
qed

text \<open>
  The capacity bonus of 20 lifts a score by 10 or more above the score without it of a
  venue that is not smaller, also after the roundings.
\<close>

lemma tight_fit_gap:
  assumes "0 \<le> t" and "t \<le> 180" and "t' \<le> t"
  shows "fl64 (t' + 10) + 10 \<le> fl64 (fl64 (t + 20) + 10)"
proof -
  define n where "n = \<lfloor>t\<rfloor>"
  have n: "rat_of_int n \<le> t" "t < rat_of_int n + 1"
    by (simp_all add: n_def) linarith
  have n0: "0 \<le> n" using assms(1) by (simp add: n_def)
  have "n \<le> \<lfloor>180::rat\<rfloor>" unfolding n_def using assms(2) by (rule floor_mono)
  then have n180: "n \<le> 180" by simp
  have r0: "0 \<le> rat_of_int n" using n0 by simp
  have r180: "rat_of_int n \<le> 180" using n180 by (metis of_int_le_iff of_int_numeral)
  have "rat_of_int n + 20 \<le> fl64 (t + 20)"
    by (rule fl64_ge_int) (use n(1) r0 r180 in simp_all)
  then have up: "rat_of_int n + 30 \<le> fl64 (fl64 (t + 20) + 10)"
    by (intro fl64_ge_int) (use r0 r180 in simp_all)
  have "fl64 (t' + 10) \<le> rat_of_int n + 11"
    by (rule fl64_le_int) (use n(2) assms(3) r0 r180 in simp_all)
  with up show ?thesis by simp
qed

text \<open>The score of an exact match of a high-priority request.\<close>

lemma exact_entry_score:
  assumes "venueMatchOf h r (venue m) = Inr m" and "\<not> alternative m"
    and "0 < participants r" and "priority r = High"
  shows "participants r * 6 \<le> area_sqft (venue m)"
    and "score m =
      Num (fl64 ((if participants r \<le> capacity (venue m)
                  then fl64 (fl64 (fl64 (max 0 (fl64 (100 - fl64 (fl64 (fl64 (rat_of_int (area_sqft (venue m)) / rat_of_int (participants r * 6)) - 1) * 20))) + 50) + 30) + 20)
                  else fl64 (fl64 (max 0 (fl64 (100 - fl64 (fl64 (fl64 (rat_of_int (area_sqft (venue m)) / rat_of_int (participants r * 6)) - 1) * 20))) + 50) + 30)) + 10))"
proof -
  from assms(1) obtain ia where
    sc: "score m = calculateScore (venue m) r ia (hasFacilities (venue m) (facilitiesRequired r))
                     (calculateRequiredArea (participants r) \<le> area_sqft (venue m))"
    and al: "alternative m = (\<not> calculateRequiredArea (participants r) \<le> area_sqft (venue m) \<or> \<not> ia
                           \<or> \<not> hasFacilities (venue m) (facilitiesRequired r))"
    by (elim venueMatchOf_Inr) simp
  from assms(2) al have all3: "calculateRequiredArea (participants r) \<le> area_sqft (venue m)" "ia"
    "hasFacilities (venue m) (facilitiesRequired r)" by simp_all
  from all3(1) show "participants r * 6 \<le> area_sqft (venue m)"
    by (simp add: calculateRequiredArea_def)
  have ne: "participants r \<noteq> 0" using assms(3) by simp
  from all3 assms(4) show "score m =
      Num (fl64 ((if participants r \<le> capacity (venue m)
                  then fl64 (fl64 (fl64 (max 0 (fl64 (100 - fl64 (fl64 (fl64 (rat_of_int (area_sqft (venue m)) / rat_of_int (participants r * 6)) - 1) * 20))) + 50) + 30) + 20)
                  else fl64 (fl64 (max 0 (fl64 (100 - fl64 (fl64 (fl64 (rat_of_int (area_sqft (venue m)) / rat_of_int (participants r * 6)) - 1) * 20))) + 50) + 30)) + 10))"
    unfolding sc calculateScore_finite [OF ne] by (simp add: Let_def)
qed

text \<open>
  On two scores of the grid, the test of the comparator on the rounded difference is the
  test on the difference.
\<close>

lemma byTightFit_le_iff:
  assumes "score a = Num sa" and "score b = Num sb"
    and "sa = of_int ma * 2 powi (- 46)" and "sb = of_int mb * 2 powi (- 46)"
  shows "(\<not> num_less (Num 0) (byTightFit a b))
           = (if \<bar>sa - sb\<bar> < 10 then area_sqft (venue a) \<le> area_sqft (venue b) else sb \<le> sa)"
proof -
  have n: "\<bar>fl64 (sa - sb)\<bar> < 10 \<longleftrightarrow> \<bar>sa - sb\<bar> < 10"
    by (rule fl64_diff_near [OF assms(3,4)])
  have p: "0 < fl64 (sb - sa) \<longleftrightarrow> sa < sb"
    by (simp add: fl64_pos_iff)
  show ?thesis
    using assms(1,2) by (simp add: byTightFit_def num_sub_def n p not_less)
qed

lemma spec_tight_fit_order_iff:
  assumes "score a = Num sa" and "score b = Num sb"
  shows "spec_tight_fit_order a b
           = (if \<bar>sa - sb\<bar> < 10 then area_sqft (venue a) \<le> area_sqft (venue b) else sb \<le> sa)"
  using assms by (simp add: spec_tight_fit_order_def not_less)

text \<open>
  Claim C3. For every host, catalog and high-priority requirements value with a positive
  participant count, every pair of entries of the returned \<open>exactMatches\<close>, the first
  standing before the second, is in the order of the specification: both scores are finite,
  the area of the first is at most the area of the second when the scores differ by less
  than 10, and the score of the first is at least the score of the second when they differ
  by 10 or more. The program tests the rounded difference of the two scores; on the scores
  of exact matches that is the same test.
\<close>

theorem exactMatches_tight_fit_order:
  assumes "findBestVenues h vs r = Inr res" and "priority r = High" and "0 < participants r"
  shows "sorted_wrt spec_tight_fit_order (exactMatches res)"
proof -
  from findBestVenues_Inr [OF assms(1)] obtain xs where
    xs: "list_all2 (\<lambda>v m. venueMatchOf h r v = Inr m) vs xs"
    and ex: "exactMatches res =
           (if priority r = High \<and> filter (\<lambda>m. \<not> alternative m) xs \<noteq> []
            then array_sort byTightFit (array_sort byScoreDesc (filter (\<lambda>m. \<not> alternative m) xs))
            else array_sort byScoreDesc (filter (\<lambda>m. \<not> alternative m) xs))"
    by blast
  define E where "E = filter (\<lambda>m. \<not> alternative m) xs"
  define G where "G = (\<lambda>a. max 0 (fl64 (100 - fl64 (fl64 (fl64 (rat_of_int a / rat_of_int (participants r * 6)) - 1) * 20))))"
  define T where "T = (\<lambda>a. fl64 (fl64 (G a + 50) + 30))"
  define hi where "hi = (\<lambda>m::VenueMatch. participants r \<le> capacity (venue m))"
  define ar where "ar = (\<lambda>m::VenueMatch. area_sqft (venue m))"
  define S where "S = (\<lambda>m::VenueMatch. fl64 ((if hi m then fl64 (T (ar m) + 20) else T (ar m)) + 10))"
  have G0: "0 \<le> G x" for x
    by (simp add: G_def)
  have Ganti: "G y \<le> G x" if "x \<le> y" for x y
    unfolding G_def by (rule areaPoints_antitone [OF assms(3) that])
  have Tanti: "T y \<le> T x" if "x \<le> y" for x y
    unfolding T_def by (intro fl64_mono add_right_mono Ganti that)
  have entry: "score m = Num (S m)" and fits: "participants r * 6 \<le> ar m" if "m \<in> set E" for m
  proof -
    from that have mx: "m \<in> set xs" and na: "\<not> alternative m" by (simp_all add: E_def)
    have vm: "venueMatchOf h r (venue m) = Inr m"
      by (rule list_all2_venueMatchOf_mem [OF xs mx])
    from exact_entry_score(1) [OF vm na assms(3) assms(2)]
    show "participants r * 6 \<le> ar m" by (simp add: ar_def)
    from exact_entry_score(2) [OF vm na assms(3) assms(2)]
    show "score m = Num (S m)"
      by (simp add: S_def T_def G_def hi_def ar_def)
  qed
  have Tb: "80 \<le> T (ar m)" "T (ar m) \<le> 180" if "m \<in> set E" for m
  proof -
    have g: "G (ar m) \<le> 100"
      unfolding G_def by (rule areaPoints_le_100 [OF assms(3) fits [OF that]])
    have l: "50 \<le> fl64 (G (ar m) + 50)"
      by (rule fl64_ge_int) (use G0 [of "ar m"] in simp_all)
    have u: "fl64 (G (ar m) + 50) \<le> 150"
      by (rule fl64_le_int) (use g in simp_all)
    show "80 \<le> T (ar m)"
      unfolding T_def by (rule fl64_ge_int) (use l in simp_all)
    show "T (ar m) \<le> 180"
      unfolding T_def by (rule fl64_le_int) (use u in simp_all)
  qed
  have grid: "\<exists>k. S m = of_int k * 2 powi (- 46)" if "m \<in> set E" for m
  proof -
    have "100 \<le> fl64 (T (ar m) + 20)"
      by (rule fl64_ge_int) (use Tb(1) [OF that] in simp_all)
    with Tb(1) [OF that]
    have "(64::rat) \<le> (if hi m then fl64 (T (ar m) + 20) else T (ar m)) + 10"
      by simp
    then have "2 powi 6 \<le> (if hi m then fl64 (T (ar m) + 20) else T (ar m)) + 10"
      by simp
    from fl64_grid [OF this] show ?thesis
      by (simp add: S_def)
  qed
  have same: "S y \<le> S x" if "x \<in> set E" "y \<in> set E" "hi x = hi y" "ar x \<le> ar y" for x y
  proof (cases "hi x")
    case True
    with that(3) have "hi y" by simp
    with True show ?thesis
      unfolding S_def by (simp only: if_True) (intro fl64_mono add_right_mono Tanti that(4))
  next
    case False
    with that(3) have "\<not> hi y" by simp
    with False show ?thesis
      unfolding S_def by (simp only: if_False) (intro fl64_mono add_right_mono Tanti that(4))
  qed
  have gap: "S y + 10 \<le> S x"
    if "x \<in> set E" "y \<in> set E" "hi x" "\<not> hi y" "ar x \<le> ar y" for x y
  proof -
    have "0 \<le> T (ar x)" using Tb(1) [OF that(1)] by simp
    from tight_fit_gap [OF this Tb(2) [OF that(1)] Tanti [OF that(5)]] that(3,4)
    show ?thesis by (simp add: S_def)
  qed
  have le_iff: "(\<not> num_less (Num 0) (byTightFit a b))
      = (if \<bar>S a - S b\<bar> < 10 then ar a \<le> ar b else S b \<le> S a)"
    if "a \<in> set E" "b \<in> set E" for a b
  proof -
    from grid [OF that(1)] obtain ka where ka: "S a = of_int ka * 2 powi (- 46)" by blast
    from grid [OF that(2)] obtain kb where kb: "S b = of_int kb * 2 powi (- 46)" by blast
    from byTightFit_le_iff [OF entry [OF that(1)] entry [OF that(2)] ka kb]
    show ?thesis by (simp only: ar_def)
  qed
  have tot: "\<not> num_less (Num 0) (byTightFit b a)"
    if "a \<in> set E" "b \<in> set E" "num_less (Num 0) (byTightFit a b)" for a b
  proof -
    from that(3) have "\<not> (\<not> num_less (Num 0) (byTightFit a b))" by simp
    then show ?thesis
      unfolding le_iff [OF that(1,2)] le_iff [OF that(2,1)]
      by (simp add: abs_minus_commute split: if_splits)
  qed
  have trans: "\<not> num_less (Num 0) (byTightFit a c)"
    if "a \<in> set E" "b \<in> set E" "c \<in> set E"
      "\<not> num_less (Num 0) (byTightFit a b)" "\<not> num_less (Num 0) (byTightFit b c)" for a b c
  proof -
    from that(4) have ab: "if \<bar>S a - S b\<bar> < 10 then ar a \<le> ar b else S b \<le> S a"
      unfolding le_iff [OF that(1,2)] .
    from that(5) have bc: "if \<bar>S b - S c\<bar> < 10 then ar b \<le> ar c else S c \<le> S b"
      unfolding le_iff [OF that(2,3)] .
    show ?thesis
      unfolding le_iff [OF that(1,3)]
      by (rule tight_fit_trans [of "set E" hi ar S, OF same gap that(1,2,3) ab bc])
  qed
  have spec: "spec_tight_fit_order a b"
    if "a \<in> set E" "b \<in> set E" "\<not> num_less (Num 0) (byTightFit a b)" for a b
  proof -
    from that(3) show ?thesis
      unfolding le_iff [OF that(1,2)]
        spec_tight_fit_order_iff [OF entry [OF that(1)] entry [OF that(2)]]
      by (simp only: ar_def)
  qed
  show ?thesis
  proof (cases "E = []")
    case True
    with ex have "exactMatches res = []"
      by (simp add: E_def array_sort_def)
    then show ?thesis by simp
  next
    case False
    with ex assms(2) have e: "exactMatches res = array_sort byTightFit (array_sort byScoreDesc E)"
      by (simp add: E_def)
    have sub: "set (array_sort byScoreDesc E) \<subseteq> set E"
      by (simp add: set_array_sort)
    have "sorted_wrt (\<lambda>a b. \<not> num_less (Num 0) (byTightFit a b))
            (array_sort byTightFit (array_sort byScoreDesc E))"
      by (rule sorted_wrt_array_sort [of "set E" byTightFit, OF tot trans sub])
    then have s: "sorted_wrt (\<lambda>a b. \<not> num_less (Num 0) (byTightFit a b)) (exactMatches res)"
      by (simp only: e)
    have mem: "set (exactMatches res) = set E"
      by (simp add: e set_array_sort)
    show ?thesis
    proof (rule sorted_wrt_mono_rel [OF _ s])
      fix a b assume "a \<in> set (exactMatches res)" "b \<in> set (exactMatches res)"
        "\<not> num_less (Num 0) (byTightFit a b)"
      then show "spec_tight_fit_order a b"
        using spec mem by simp
    qed
  qed
qed

text \<open>
  On the seeded catalog with 150 participants the four exact matches come back with the
  smallest room first. The two rooms \<open>smallHall\<close> and \<open>largeHall\<close> come back by area: their
  scores differ by less than 10.
\<close>

lemma seeded_high_returns:
  "(case findBestVenues utcHost seededVenues (mkRequirements 150 [] ''2025-09-26 11:00'' High) of
      Inl e \<Rightarrow> False
    | Inr res \<Rightarrow>
        map venue (exactMatches res) = [classroom101, computerLab2, computerLab1, seminarHallA])"
  by code_simp

lemma two_halls_return:
  "(case findBestVenues utcHost [smallHall, largeHall]
           (mkRequirements 100 [] ''2025-09-26 11:00'' High) of
      Inl e \<Rightarrow> False
    | Inr res \<Rightarrow>
        map venue (exactMatches res) = [smallHall, largeHall]
        \<and> map score (exactMatches res)
            = [Num (3283874728290987 / 17592186044416), Num (6919593177470293 / 35184372088832)])"
  by code_simp

theorem exactMatches_tight_fit_order_witness:
  "\<exists>res res'.
      findBestVenues utcHost seededVenues (mkRequirements 150 [] ''2025-09-26 11:00'' High) = Inr res
      \<and> priority (mkRequirements 150 [] ''2025-09-26 11:00'' High) = High
      \<and> 0 < participants (mkRequirements 150 [] ''2025-09-26 11:00'' High)
      \<and> map venue (exactMatches res) = [classroom101, computerLab2, computerLab1, seminarHallA]
      \<and> sorted_wrt spec_tight_fit_order (exactMatches res)
      \<and> findBestVenues utcHost [smallHall, largeHall]
            (mkRequirements 100 [] ''2025-09-26 11:00'' High) = Inr res'
      \<and> priority (mkRequirements 100 [] ''2025-09-26 11:00'' High) = High
      \<and> 0 < participants (mkRequirements 100 [] ''2025-09-26 11:00'' High)
      \<and> map venue (exactMatches res') = [smallHall, largeHall]
      \<and> map score (exactMatches res')
          = [Num (3283874728290987 / 17592186044416), Num (6919593177470293 / 35184372088832)]
      \<and> sorted_wrt spec_tight_fit_order (exactMatches res')"
proof -
  let ?r = "mkRequirements 150 [] ''2025-09-26 11:00'' High"
  let ?r' = "mkRequirements 100 [] ''2025-09-26 11:00'' High"
  obtain res where res: "findBestVenues utcHost seededVenues ?r = Inr res"
    using seeded_high_returns by (cases "findBestVenues utcHost seededVenues ?r") simp_all
  obtain res' where res': "findBestVenues utcHost [smallHall, largeHall] ?r' = Inr res'"
    using two_halls_return by (cases "findBestVenues utcHost [smallHall, largeHall] ?r'") simp_all
  from seeded_high_returns
  have ex: "map venue (exactMatches res) = [classroom101, computerLab2, computerLab1, seminarHallA]"
    unfolding res sum.case .
  from two_halls_return
  have ex': "map venue (exactMatches res') = [smallHall, largeHall]"
    and sc': "map score (exactMatches res')
          = [Num (3283874728290987 / 17592186044416), Num (6919593177470293 / 35184372088832)]"
    unfolding res' sum.case by (rule conjunct1, rule conjunct2)
  have hi: "priority ?r = High" and pos: "0 < participants ?r"
    and hi': "priority ?r' = High" and pos': "0 < participants ?r'"
    by (simp_all add: mkRequirements_def)
  have srt: "sorted_wrt spec_tight_fit_order (exactMatches res)"
    by (rule exactMatches_tight_fit_order [OF res hi pos])
  have srt': "sorted_wrt spec_tight_fit_order (exactMatches res')"
    by (rule exactMatches_tight_fit_order [OF res' hi' pos'])
  show ?thesis
    by (rule exI [of _ res], rule exI [of _ res'])
      (intro conjI res hi pos ex srt res' hi' pos' ex' sc' srt')
qed

section \<open>Reasons\<close>

lemma startsWith_append: "startsWith (p @ s) p"
  by (induction p) simp_all

lemma startsWith_append2: "startsWith (p @ q @ s) p"
  by (induction p) simp_all

lemma hasFacilities_none:
  assumes "facilities v = None \<or> facilities v = Some []" and "required \<noteq> []"
  shows "\<not> hasFacilities v required"
  using assms by (auto simp: hasFacilities_def)

lemma venueMatchOf_reason:
  assumes "venueMatchOf h r v = Inr m"
  obtains ia where "isVenueAvailable h v (preferredDateTime r) = Inr ia"
    and "reason m =
          (if calculateRequiredArea (participants r) \<le> area_sqft v \<and> ia
                \<and> hasFacilities v (facilitiesRequired r) then
             ''Perfect match: Adequate space, available, and has required facilities''
           else if \<not> calculateRequiredArea (participants r) \<le> area_sqft v then
             ''Too small: Needs '' @ showInt (calculateRequiredArea (participants r))
               @ '' sq ft, has '' @ showInt (area_sqft v) @ '' sq ft''
           else if \<not> ia then ''Venue is booked at requested time''
           else
             ''Missing facilities: '' @ join '', '' (missingFacilities v (facilitiesRequired r)))"
  using assms
  by (auto simp: venueMatchOf_def Let_def split: sum.splits)

text \<open>
  Claim C5 says that a venue without facilities, against a non-empty list of required
  facilities, is an alternative whose reason begins with \<open>Missing facilities:\<close>. The
  reason is chosen in a fixed order, and a venue that is too small gets the
  \<open>Too small\<close> reason whatever its facilities are.
\<close>

theorem empty_facilities_too_small_reason:
  "facilities storeRoom = Some []
   \<and> facilitiesRequired (mkRequirements 100 [''Projector''] ''2025-09-26 11:00'' Medium) \<noteq> []
   \<and> findBestVenues utcHost [storeRoom] (mkRequirements 100 [''Projector''] ''2025-09-26 11:00'' Medium)
       = Inr \<lparr>exactMatches = [],
               alternatives =
                 [\<lparr>venue = storeRoom, score = Num 50,
                   reason = ''Too small: Needs 600 sq ft, has 400 sq ft'', alternative = True\<rparr>],
               noMatch = False\<rparr>
   \<and> \<not> startsWith ''Too small: Needs 600 sq ft, has 400 sq ft'' ''Missing facilities:''"
  by code_simp

text \<open>
  Claim C5, amended. A venue whose facilities are empty or absent, against a non-empty
  list of required facilities, is never an exact match; an entry of \<open>alternatives\<close> for it
  is flagged as an alternative, and its reason begins with \<open>Missing facilities:\<close> when
  the venue has the required area and is available, begins with \<open>Too small:\<close> when it
  has not the area, and is \<open>Venue is booked at requested time\<close> when it has the area and
  is booked.
\<close>

theorem empty_facilities_alternative:
  assumes "facilities v = None \<or> facilities v = Some []"
    and "facilitiesRequired r \<noteq> []"
    and "findBestVenues h vs r = Inr res"
  shows "v \<notin> set (map venue (exactMatches res))
       \<and> (\<forall>m\<in>set (alternatives res). venue m = v \<longrightarrow>
            alternative m
            \<and> (calculateRequiredArea (participants r) \<le> area_sqft v \<longrightarrow>
                 isVenueAvailable h v (preferredDateTime r) = Inr True \<longrightarrow>
                 startsWith (reason m) ''Missing facilities:'')
            \<and> (\<not> calculateRequiredArea (participants r) \<le> area_sqft v \<longrightarrow>
                 startsWith (reason m) ''Too small:'')
            \<and> (calculateRequiredArea (participants r) \<le> area_sqft v \<longrightarrow>
                 isVenueAvailable h v (preferredDateTime r) = Inr False \<longrightarrow>
                 reason m = ''Venue is booked at requested time''))"
proof -
  from findBestVenues_Inr [OF assms(3)] obtain xs where
    xs: "list_all2 (\<lambda>v m. venueMatchOf h r v = Inr m) vs xs"
    and ex: "exactMatches res =
           (if priority r = High \<and> filter (\<lambda>m. \<not> alternative m) xs \<noteq> []
            then array_sort byTightFit (array_sort byScoreDesc (filter (\<lambda>m. \<not> alternative m) xs))
            else array_sort byScoreDesc (filter (\<lambda>m. \<not> alternative m) xs))"
    and al: "alternatives res = take 3 (array_sort byScoreDesc (filter alternative xs))"
    by blast
  have nf: "\<not> hasFacilities v (facilitiesRequired r)"
    by (rule hasFacilities_none [OF assms(1,2)])
  have setE: "set (exactMatches res) = set (filter (\<lambda>m. \<not> alternative m) xs)"
    using exactMatches_mset [OF ex] by (metis set_mset_mset)
  have setA: "set (alternatives res) \<subseteq> set (filter alternative xs)"
    using al set_take_subset [of 3 "array_sort byScoreDesc (filter alternative xs)"]
    by (simp add: set_array_sort)
  have part1: "v \<notin> set (map venue (exactMatches res))"
  proof
    assume "v \<in> set (map venue (exactMatches res))"
    then obtain m where m: "m \<in> set (exactMatches res)" "venue m = v" by auto
    with setE have mx: "m \<in> set xs" and na: "\<not> alternative m" by simp_all
    from list_all2_venueMatchOf_mem [OF xs mx] m(2) have "venueMatchOf h r v = Inr m" by simp
    then have "alternative m" using nf by (elim venueMatchOf_Inr) simp
    with na show False by simp
  qed
  have part2: "\<forall>m\<in>set (alternatives res). venue m = v \<longrightarrow>
            alternative m
            \<and> (calculateRequiredArea (participants r) \<le> area_sqft v \<longrightarrow>
                 isVenueAvailable h v (preferredDateTime r) = Inr True \<longrightarrow>
                 startsWith (reason m) ''Missing facilities:'')
            \<and> (\<not> calculateRequiredArea (participants r) \<le> area_sqft v \<longrightarrow>
                 startsWith (reason m) ''Too small:'')
            \<and> (calculateRequiredArea (participants r) \<le> area_sqft v \<longrightarrow>
                 isVenueAvailable h v (preferredDateTime r) = Inr False \<longrightarrow>
                 reason m = ''Venue is booked at requested time'')"
  proof (intro ballI impI)
    fix m assume m: "m \<in> set (alternatives res)" and vm: "venue m = v"
    from m setA have mx: "m \<in> set xs" and a: "alternative m" by auto
    from list_all2_venueMatchOf_mem [OF xs mx] vm have vmo: "venueMatchOf h r v = Inr m" by simp
    from vmo obtain ia where ia: "isVenueAvailable h v (preferredDateTime r) = Inr ia"
      and rs: "reason m =
          (if calculateRequiredArea (participants r) \<le> area_sqft v \<and> ia
                \<and> hasFacilities v (facilitiesRequired r) then
             ''Perfect match: Adequate space, available, and has required facilities''
           else if \<not> calculateRequiredArea (participants r) \<le> area_sqft v then
             ''Too small: Needs '' @ showInt (calculateRequiredArea (participants r))
               @ '' sq ft, has '' @ showInt (area_sqft v) @ '' sq ft''
           else if \<not> ia then ''Venue is booked at requested time''
           else
             ''Missing facilities: '' @ join '', '' (missingFacilities v (facilitiesRequired r)))"
      by (rule venueMatchOf_reason)
    have r1: "calculateRequiredArea (participants r) \<le> area_sqft v \<longrightarrow>
                 isVenueAvailable h v (preferredDateTime r) = Inr True \<longrightarrow>
                 startsWith (reason m) ''Missing facilities:''"
    proof (intro impI)
      assume "calculateRequiredArea (participants r) \<le> area_sqft v"
        and "isVenueAvailable h v (preferredDateTime r) = Inr True"
      with ia nf rs have "reason m = ''Missing facilities:'' @ '' '' @ join '', '' (missingFacilities v (facilitiesRequired r))"
        by simp
      then show "startsWith (reason m) ''Missing facilities:''"
        by (simp only: startsWith_append2)
    qed
    have r2: "\<not> calculateRequiredArea (participants r) \<le> area_sqft v \<longrightarrow>
                 startsWith (reason m) ''Too small:''"
    proof (intro impI)
      assume "\<not> calculateRequiredArea (participants r) \<le> area_sqft v"
      with rs have "reason m = ''Too small:'' @ '' Needs '' @ (showInt (calculateRequiredArea (participants r))
               @ '' sq ft, has '' @ showInt (area_sqft v) @ '' sq ft'')"
        by simp
      then show "startsWith (reason m) ''Too small:''"
        by (simp only: startsWith_append2)
    qed
    have r3: "calculateRequiredArea (participants r) \<le> area_sqft v \<longrightarrow>
                 isVenueAvailable h v (preferredDateTime r) = Inr False \<longrightarrow>
                 reason m = ''Venue is booked at requested time''"
      using ia rs by simp
    from a r1 r2 r3
    show "alternative m
            \<and> (calculateRequiredArea (participants r) \<le> area_sqft v \<longrightarrow>
                 isVenueAvailable h v (preferredDateTime r) = Inr True \<longrightarrow>
                 startsWith (reason m) ''Missing facilities:'')
            \<and> (\<not> calculateRequiredArea (participants r) \<le> area_sqft v \<longrightarrow>
                 startsWith (reason m) ''Too small:'')
            \<and> (calculateRequiredArea (participants r) \<le> area_sqft v \<longrightarrow>
                 isVenueAvailable h v (preferredDateTime r) = Inr False \<longrightarrow>
                 reason m = ''Venue is booked at requested time'')"
      by blast
  qed
  from part1 part2 show ?thesis by blast
qed

lemma open_lawn_returns:
  "(case findBestVenues utcHost [storeRoom, openLawn]
           (mkRequirements 100 [''Projector''] ''2025-09-26 11:00'' Medium) of
      Inl e \<Rightarrow> False
    | Inr res \<Rightarrow> map venue (alternatives res) = [openLawn, storeRoom])"
  by code_simp

lemma open_lawn_fits:
  "(facilities openLawn = None \<or> facilities openLawn = Some [])
   \<and> facilitiesRequired (mkRequirements 100 [''Projector''] ''2025-09-26 11:00'' Medium) \<noteq> []
   \<and> calculateRequiredArea (participants (mkRequirements 100 [''Projector''] ''2025-09-26 11:00'' Medium))
        \<le> area_sqft openLawn
   \<and> isVenueAvailable utcHost openLawn
        (preferredDateTime (mkRequirements 100 [''Projector''] ''2025-09-26 11:00'' Medium)) = Inr True"
  by code_simp

theorem empty_facilities_alternative_witness:
  "\<exists>res m. findBestVenues utcHost [storeRoom, openLawn]
               (mkRequirements 100 [''Projector''] ''2025-09-26 11:00'' Medium) = Inr res
      \<and> (facilities openLawn = None \<or> facilities openLawn = Some [])
      \<and> facilitiesRequired (mkRequirements 100 [''Projector''] ''2025-09-26 11:00'' Medium) \<noteq> []
      \<and> m \<in> set (alternatives res) \<and> venue m = openLawn
      \<and> calculateRequiredArea (participants (mkRequirements 100 [''Projector''] ''2025-09-26 11:00'' Medium))
           \<le> area_sqft openLawn
      \<and> isVenueAvailable utcHost openLawn
           (preferredDateTime (mkRequirements 100 [''Projector''] ''2025-09-26 11:00'' Medium)) = Inr True
      \<and> openLawn \<notin> set (map venue (exactMatches res))
      \<and> alternative m \<and> startsWith (reason m) ''Missing facilities:''"
proof -
  let ?r = "mkRequirements 100 [''Projector''] ''2025-09-26 11:00'' Medium"
  from open_lawn_returns obtain res where
    res: "findBestVenues utcHost [storeRoom, openLawn] ?r = Inr res"
    and al: "map venue (alternatives res) = [openLawn, storeRoom]"
    by (auto split: sum.splits)
  from al obtain m where m: "m \<in> set (alternatives res)" "venue m = openLawn"
    by (cases "alternatives res") auto
  note f = open_lawn_fits
  from f have f1: "facilities openLawn = None \<or> facilities openLawn = Some []"
    and f2: "facilitiesRequired ?r \<noteq> []" by blast+
  from empty_facilities_alternative [OF f1 f2 res] m f
  have "openLawn \<notin> set (map venue (exactMatches res))
      \<and> alternative m \<and> startsWith (reason m) ''Missing facilities:''"
    by blast
  with res m f show ?thesis by blast
qed

text \<open>
  Claim C6 says that the list of the \<open>Missing facilities\<close> reason holds exactly the
  required labels that match no facility of the venue under the test of \<open>hasFacilities\<close>,
  where either text may contain the other. The filter that builds the list tests one
  direction only. For \<open>Seminar Hall A\<close> and the required labels \<open>High-Speed WiFi\<close> and
  \<open>Stage\<close>, the label \<open>High-Speed WiFi\<close> matches the facility \<open>WiFi\<close> for
  \<open>hasFacilities\<close>, and \<open>Stage\<close> is the only label without a match; the reason lists both.
\<close>

theorem missing_reason_lists_matched_facility:
  "findBestVenues utcHost [seminarHallA]
       (mkRequirements 100 [''High-Speed WiFi'', ''Stage''] ''2025-09-26 11:00'' Medium)
     = Inr \<lparr>exactMatches = [],
             alternatives =
               [\<lparr>venue = seminarHallA, score = Num (8678811781911893 / 70368744177664),
                 reason = ''Missing facilities: High-Speed WiFi, Stage'', alternative = True\<rparr>],
             noMatch = False\<rparr>
   \<and> facilityMatches ''High-Speed WiFi'' ''WiFi''
   \<and> filter (\<lambda>required. \<not> list_ex (facilityMatches required)
                              [''Projector'', ''AC'', ''Sound System'', ''WiFi''])
        [''High-Speed WiFi'', ''Stage''] = [''Stage'']"
  by code_simp

section \<open>Suggested time slots\<close>

lemma str_includes_prefix_append: "str_includes (p @ s) p"
proof (cases "p @ s")
  case Nil
  then show ?thesis by simp
next
  case (Cons a list)
  have "startsWith (p @ s) p" by (rule startsWith_append)
  with Cons show ?thesis by simp
qed

lemma str_split_nonempty: "str_split c s \<noteq> []"
  by (induction s) (simp_all split: list.splits)

lemma str_split_no_sep: "c \<notin> set s \<Longrightarrow> str_split c s = [s]"
  by (induction s) auto

lemma str_split_prefix: "c \<notin> set a \<Longrightarrow> str_split c (a @ c # b) = a # str_split c b"
  by (induction a) auto

text \<open>
  Claim C4 says that a venue booked \<open>09:00-10:00\<close> on the requested date is offered
  \<open>11:00\<close>, \<open>14:00\<close>, \<open>15:00\<close> and \<open>16:00\<close>. The buffer of two hours is taken around
  the end of a booking as well as around its start, and \<open>11:00\<close> is one hour after
  \<open>10:00\<close>: the result is \<open>14:00\<close>, \<open>15:00\<close>, \<open>16:00\<close>.
\<close>

theorem suggested_slots_without_eleven:
  "booked_slots morningHall = Some [''2025-09-26 09:00-10:00'']
   \<and> getSuggestedTimeSlots utcHost morningHall ''2025-09-26'' = [''14:00'', ''15:00'', ''16:00'']
   \<and> getSuggestedTimeSlots utcHost morningHall ''2025-09-26''
        \<noteq> [''11:00'', ''14:00'', ''15:00'', ''16:00'']"
  by code_simp

text \<open>
  Claim C4, amended. On a host that reads the texts \<open>09:00\<close> to \<open>16:00\<close> as hours of the
  reference day, and for every date text without a space: a venue whose only booked slot
  is that date followed by \<open>09:00-10:00\<close> is offered exactly \<open>14:00\<close>, \<open>15:00\<close>,
  \<open>16:00\<close>; and the comparison is strict, for a venue whose only booked slot is that date
  followed by \<open>12:00-13:00\<close> is offered exactly \<open>09:00\<close>, \<open>10:00\<close>, \<open>15:00\<close>,
  \<open>16:00\<close>, where \<open>10:00\<close> and \<open>15:00\<close> are two hours from a booked time.
\<close>

theorem suggested_slots_two_hour_buffer:
  assumes "\<forall>(s, hr)\<in>set referenceHours. getTime host (''2000-01-01 '' @ s) = Some (t0 + hr * 3600000)"
    and "CHR '' '' \<notin> set date"
  shows "(booked_slots v = Some [date @ '' 09:00-10:00''] \<longrightarrow>
           getSuggestedTimeSlots host v date = [''14:00'', ''15:00'', ''16:00''])
       \<and> (booked_slots v = Some [date @ '' 12:00-13:00''] \<longrightarrow>
           getSuggestedTimeSlots host v date = [''09:00'', ''10:00'', ''15:00'', ''16:00''])"
proof -
  have g: "getTime host ''2000-01-01 09:00'' = Some (t0 + 9 * 3600000)"
    "getTime host ''2000-01-01 10:00'' = Some (t0 + 10 * 3600000)"
    "getTime host ''2000-01-01 11:00'' = Some (t0 + 11 * 3600000)"
    "getTime host ''2000-01-01 12:00'' = Some (t0 + 12 * 3600000)"
    "getTime host ''2000-01-01 13:00'' = Some (t0 + 13 * 3600000)"
    "getTime host ''2000-01-01 14:00'' = Some (t0 + 14 * 3600000)"
    "getTime host ''2000-01-01 15:00'' = Some (t0 + 15 * 3600000)"
    "getTime host ''2000-01-01 16:00'' = Some (t0 + 16 * 3600000)"
    using assms(1) by (simp_all add: referenceHours_def)
  have inc: "str_includes (date @ rest) date" for rest
    by (rule str_includes_prefix_append)
  have sp1: "str_split CHR '' '' (date @ '' 09:00-10:00'') = [date, ''09:00-10:00'']"
    using str_split_prefix [OF assms(2), of "''09:00-10:00''"] by simp
  have sp2: "str_split CHR '' '' (date @ '' 12:00-13:00'') = [date, ''12:00-13:00'']"
    using str_split_prefix [OF assms(2), of "''12:00-13:00''"] by simp
  have bt1: "bookedTimesOf [date @ '' 09:00-10:00''] date = [''09:00'', ''10:00'']"
    by (simp add: bookedTimesOf_def inc sp1)
  have bt2: "bookedTimesOf [date @ '' 12:00-13:00''] date = [''12:00'', ''13:00'']"
    by (simp add: bookedTimesOf_def inc sp2)
  have r1: "getSuggestedTimeSlots host v date = [''14:00'', ''15:00'', ''16:00'']"
    if "booked_slots v = Some [date @ '' 09:00-10:00'']"
    by (simp add: getSuggestedTimeSlots_def that bt1 suggestions_def withinBuffer_def g)
  have r2: "getSuggestedTimeSlots host v date = [''09:00'', ''10:00'', ''15:00'', ''16:00'']"
    if "booked_slots v = Some [date @ '' 12:00-13:00'']"
    by (simp add: getSuggestedTimeSlots_def that bt2 suggestions_def withinBuffer_def g)
  from r1 r2 show ?thesis by blast
qed

theorem suggested_slots_two_hour_buffer_witness:
  "list_all
     (\<lambda>(s, hr). getTime utcHost (''2000-01-01 '' @ s) = Some (946684800000 + hr * 3600000))
     referenceHours
   \<and> CHR '' '' \<notin> set ''2025-09-26''
   \<and> booked_slots morningHall = Some [''2025-09-26'' @ '' 09:00-10:00'']
   \<and> getSuggestedTimeSlots utcHost morningHall ''2025-09-26'' = [''14:00'', ''15:00'', ''16:00'']
   \<and> booked_slots noonHall = Some [''2025-09-26'' @ '' 12:00-13:00'']
   \<and> getSuggestedTimeSlots utcHost noonHall ''2025-09-26''
        = [''09:00'', ''10:00'', ''15:00'', ''16:00'']"
proof -
  have h0: "list_all
     (\<lambda>(s, hr). getTime utcHost (''2000-01-01 '' @ s) = Some (946684800000 + hr * 3600000))
     referenceHours"
    by (simp add: referenceHours_def utcHost_def dateTimeText_def isDigit_def minuteOfDay_def
        digitVal_def)
  then have h1: "\<forall>(s, hr)\<in>set referenceHours.
       getTime utcHost (''2000-01-01 '' @ s) = Some (946684800000 + hr * 3600000)"
    by (simp only: list_all_iff)
  have h2: "CHR '' '' \<notin> set ''2025-09-26''" by simp
  have h3: "booked_slots morningHall = Some [''2025-09-26'' @ '' 09:00-10:00'']"
    by (simp add: morningHall_def mkVenue_def)
  have h4: "booked_slots noonHall = Some [''2025-09-26'' @ '' 12:00-13:00'']"
    by (simp add: noonHall_def mkVenue_def)
  from suggested_slots_two_hour_buffer [OF h1 h2, of morningHall] h3
  have r1: "getSuggestedTimeSlots utcHost morningHall ''2025-09-26'' = [''14:00'', ''15:00'', ''16:00'']"
    by blast
  from suggested_slots_two_hour_buffer [OF h1 h2, of noonHall] h4
  have r2: "getSuggestedTimeSlots utcHost noonHall ''2025-09-26''
        = [''09:00'', ''10:00'', ''15:00'', ''16:00'']"
    by blast
  from h0 h2 h3 r1 h4 r2 show ?thesis by blast
qed

section \<open>Availability\<close>

text \<open>The string operations of the program against the library notions.\<close>

lemma startsWith_iff_prefix: "startsWith s p \<longleftrightarrow> prefix p s"
  by (induction s p rule: startsWith.induct) auto

lemma str_includes_iff_sublist: "str_includes s sub \<longleftrightarrow> sublist sub s"
  by (induction s) (simp_all add: sublist_Cons_right startsWith_iff_prefix)

lemma str_le_iff: "str_le a b \<longleftrightarrow> a \<le> b"
  by (induction a b rule: str_le.induct) (auto simp: less_char_def)

lemma str_includes_single: "str_includes s [c] \<longleftrightarrow> c \<in> set s"
  by (induction s) auto

lemma join_str_split: "join [c] (str_split c s) = s"
proof (induction s)
  case Nil
  then show ?case by simp
next
  case (Cons x s)
  show ?case
  proof (cases "str_split c s")
    case Nil
    then show ?thesis using str_split_nonempty [of c s] by simp
  next
    case (Cons w ws)
    with Cons.IH show ?thesis
      by (cases ws) auto
  qed
qed

lemma str_split_sep_free: "w \<in> set (str_split c s) \<Longrightarrow> c \<notin> set w"
proof (induction s arbitrary: w)
  case Nil
  then show ?case by simp
next
  case (Cons x s)
  then show ?case
    by (cases "str_split c s") (auto split: if_splits)
qed

lemma tokens_str_split: "tokens c s (str_split c s)"
  by (simp add: tokens_def str_split_nonempty join_str_split str_split_sep_free)

lemma tokens_unique: "tokens c s toks \<Longrightarrow> toks = str_split c s"
proof (induction toks arbitrary: s)
  case Nil
  then show ?case by (simp add: tokens_def)
next
  case (Cons w ws)
  from Cons.prems have w: "c \<notin> set w" and j: "join [c] (w # ws) = s"
    and rest: "\<forall>u\<in>set ws. c \<notin> set u"
    by (simp_all add: tokens_def)
  show ?case
  proof (cases ws)
    case Nil
    with j w show ?thesis by (simp add: str_split_no_sep)
  next
    case (Cons u us)
    with rest have "tokens c (join [c] ws) ws" by (simp add: tokens_def)
    then have "ws = str_split c (join [c] ws)" by (rule Cons.IH)
    moreover from j Cons have "s = w @ c # join [c] ws" by simp
    ultimately show ?thesis
      using str_split_prefix [OF w, of "join [c] ws"] by simp
  qed
qed

lemma tokens_iff: "tokens c s toks \<longleftrightarrow> toks = str_split c s"
  using tokens_unique tokens_str_split by blast

lemma str_split_two_sep: "str_split c s = a # b # rest \<Longrightarrow> c \<in> set s"
  using str_split_no_sep [of c s] by auto

lemma slotCovers_iff_spec: "slotCovers d t slot \<longleftrightarrow> spec_slot_blocks d t slot"
proof (cases "nth_opt (str_split CHR '' '' slot) 1")
  case None
  then show ?thesis
    by (simp add: slotCovers_def spec_slot_blocks_def tokens_iff)
next
  case (Some tok)
  show ?thesis
  proof (cases "str_split CHR ''-'' tok")
    case Nil
    then show ?thesis using str_split_nonempty [of "CHR ''-''" tok] by simp
  next
    case (Cons a as)
    show ?thesis
    proof (cases as)
      case Nil
      with Cons Some show ?thesis
        by (simp add: slotCovers_def spec_slot_blocks_def tokens_iff)
    next
      case (Cons b rest)
      with \<open>str_split CHR ''-'' tok = a # as\<close>
      have sp: "str_split CHR ''-'' tok = a # b # rest" by simp
      then have mem: "CHR ''-'' \<in> set tok" by (rule str_split_two_sep)
      then have ne: "tok \<noteq> []" by auto
      from mem have inc: "str_includes tok ''-''" by (simp only: str_includes_single)
      from Some sp inc ne show ?thesis
        by (simp add: slotCovers_def spec_slot_blocks_def tokens_iff str_le_iff
            str_includes_iff_sublist [of slot d])
    qed
  qed
qed

lemma list_ex_slotCovers:
  "list_ex (slotCovers d t) slots \<longleftrightarrow> (\<exists>slot\<in>set slots. spec_slot_blocks d t slot)"
  by (simp add: list_ex_iff slotCovers_iff_spec)

text \<open>
  With respect to the date that the host derives, \<open>isVenueAvailable\<close> does what the
  specification says: a venue without booked slots is available, and otherwise the result
  is false exactly when a booked slot contains that date and its second token gives a
  start and an end around the requested time.
\<close>

lemma isVenueAvailable_on_host_date:
  "(booked_slots v = None \<or> booked_slots v = Some [] \<longrightarrow> isVenueAvailable host v dt = Inr True)
   \<and> (\<forall>slots d. booked_slots v = Some slots \<longrightarrow> isoDate host dt = Some d \<longrightarrow>
         isVenueAvailable host v dt
           = Inr (\<not> (\<exists>slot\<in>set slots. spec_slot_blocks d (localeTime host dt) slot)))"
  by (auto simp: isVenueAvailable_def list_ex_slotCovers)

text \<open>
  Claim C2 says that \<open>isVenueAvailable\<close> returns false if and only if a booked slot contains
  the requested calendar date and covers the requested time. The code takes the date from
  \<open>toISOString\<close>, which is the UTC date, and the time from the local time of the host. Ten
  hours east of UTC a request for \<open>2025-09-26 09:00\<close> is compared with the date
  \<open>2025-09-25\<close>: the \<open>Basketball Court\<close>, booked \<open>2025-09-26 09:00-11:00\<close>, has a slot that
  contains the requested date and covers the requested time, and is reported available.
\<close>

lemma basketball_court_brisbane:
  "isoDate brisbaneHost ''2025-09-26 09:00'' = Some ''2025-09-25''
   \<and> localeTime brisbaneHost ''2025-09-26 09:00'' = ''09:00''
   \<and> booked_slots basketballCourt = Some [''2025-09-26 09:00-11:00'']
   \<and> slotCovers ''2025-09-26'' ''09:00'' ''2025-09-26 09:00-11:00''
   \<and> isVenueAvailable brisbaneHost basketballCourt ''2025-09-26 09:00'' = Inr True"
  by code_simp

theorem booked_venue_available_east_of_utc:
  "isoDate brisbaneHost ''2025-09-26 09:00'' = Some ''2025-09-25''
   \<and> localeTime brisbaneHost ''2025-09-26 09:00'' = ''09:00''
   \<and> booked_slots basketballCourt = Some [''2025-09-26 09:00-11:00'']
   \<and> spec_slot_blocks ''2025-09-26'' ''09:00'' ''2025-09-26 09:00-11:00''
   \<and> isVenueAvailable brisbaneHost basketballCourt ''2025-09-26 09:00'' = Inr True"
  using basketball_court_brisbane by (simp only: slotCovers_iff_spec)

lemma malformedSlot_not_covers: "malformedSlot d slot \<Longrightarrow> \<not> slotCovers d t slot"
  by (auto simp: malformedSlot_def slotCovers_def str_includes_single split: option.splits)

text \<open>
  Claim C9. A booked slot that contains the requested date and whose second
  space-separated token is absent or has no \<open>-\<close> is never a conflict, and it changes
  nothing: once the host has derived the requested date, \<open>isVenueAvailable\<close> returns a
  value, no error, and the same value as for the venue without its malformed slots.
\<close>

theorem malformed_slots_ignored:
  assumes "isoDate host dt = Some d" and "booked_slots v = Some slots"
  shows "(\<forall>slot\<in>set slots. malformedSlot d slot \<longrightarrow> \<not> slotCovers d (localeTime host dt) slot)
       \<and> (\<exists>b. isVenueAvailable host v dt = Inr b
             \<and> isVenueAvailable host
                  (v\<lparr>booked_slots := Some (filter (\<lambda>slot. \<not> malformedSlot d slot) slots)\<rparr>) dt
                = Inr b)"
proof -
  let ?t = "localeTime host dt"
  have a: "\<forall>slot\<in>set slots. malformedSlot d slot \<longrightarrow> \<not> slotCovers d ?t slot"
    by (simp add: malformedSlot_not_covers)
  have eq: "list_ex (slotCovers d ?t) (filter (\<lambda>slot. \<not> malformedSlot d slot) slots)
            = list_ex (slotCovers d ?t) slots"
    using a by (auto simp: list_ex_iff)
  have none: "\<not> list_ex (slotCovers d ?t) slots"
    if e: "filter (\<lambda>slot. \<not> malformedSlot d slot) slots = []"
    using eq unfolding e by simp
  have "isVenueAvailable host v dt = Inr (\<not> list_ex (slotCovers d ?t) slots)"
    using assms by (auto simp: isVenueAvailable_def)
  moreover have "isVenueAvailable host
                  (v\<lparr>booked_slots := Some (filter (\<lambda>slot. \<not> malformedSlot d slot) slots)\<rparr>) dt
                = Inr (\<not> list_ex (slotCovers d ?t) slots)"
    using assms eq none by (auto simp: isVenueAvailable_def)
  ultimately show ?thesis using a by blast
qed

lemma loose_hall_facts:
  "isoDate utcHost ''2025-09-26 11:00'' = Some ''2025-09-26''
   \<and> booked_slots looseHall = Some [''2025-09-26 morning'', ''2025-09-26'']
   \<and> malformedSlot ''2025-09-26'' ''2025-09-26 morning''
   \<and> malformedSlot ''2025-09-26'' ''2025-09-26''"
  by code_simp

theorem malformed_slots_ignored_witness:
  "isoDate utcHost ''2025-09-26 11:00'' = Some ''2025-09-26''
   \<and> booked_slots looseHall = Some [''2025-09-26 morning'', ''2025-09-26'']
   \<and> malformedSlot ''2025-09-26'' ''2025-09-26 morning''
   \<and> malformedSlot ''2025-09-26'' ''2025-09-26''
   \<and> \<not> slotCovers ''2025-09-26'' (localeTime utcHost ''2025-09-26 11:00'') ''2025-09-26 morning''
   \<and> \<not> slotCovers ''2025-09-26'' (localeTime utcHost ''2025-09-26 11:00'') ''2025-09-26''
   \<and> isVenueAvailable utcHost looseHall ''2025-09-26 11:00'' = Inr True"
proof -
  let ?slots = "[''2025-09-26 morning'', ''2025-09-26'']"
  note f = loose_hall_facts
  from f have i: "isoDate utcHost ''2025-09-26 11:00'' = Some ''2025-09-26''"
    and b: "booked_slots looseHall = Some ?slots"
    and m1: "malformedSlot ''2025-09-26'' ''2025-09-26 morning''"
    and m2: "malformedSlot ''2025-09-26'' ''2025-09-26''"
    by blast+
  note t = malformed_slots_ignored [OF i b]
  from t m1 m2
  have c: "\<not> slotCovers ''2025-09-26'' (localeTime utcHost ''2025-09-26 11:00'') ''2025-09-26 morning''"
    "\<not> slotCovers ''2025-09-26'' (localeTime utcHost ''2025-09-26 11:00'') ''2025-09-26''"
    by simp_all
  have flt: "filter (\<lambda>slot. \<not> malformedSlot ''2025-09-26'' slot) ?slots = []"
    using m1 m2 by simp
  have "isVenueAvailable utcHost
          (looseHall\<lparr>booked_slots := Some (filter (\<lambda>slot. \<not> malformedSlot ''2025-09-26'' slot) ?slots)\<rparr>)
          ''2025-09-26 11:00'' = Inr True"
    unfolding flt by (simp add: isVenueAvailable_def)
  with t have r: "isVenueAvailable utcHost looseHall ''2025-09-26 11:00'' = Inr True"
    by auto
  from i b m1 m2 c r show ?thesis by blast
qed

end
